theory Spec2Isabelle
  imports Complex_Main "HOL-Library.Log_Nat" "HOL-Library.Signed_Division" "HOL-Library.Word"
begin

chapter \<open>A shallow embedding of the gnuSMV core\<close>

text \<open>
  The development follows the C++ sources: the encoder (\<^verbatim>\<open>enc/enc.cc\<close>), the witness
  store (\<^verbatim>\<open>witness/witness.cc\<close>), the witness evaluator (\<^verbatim>\<open>expr/expr_eval.cc\<close>), the
  compiler's internal services (\<^verbatim>\<open>model/compiler/internals.cc\<close>), the boolean compiler
  (\<^verbatim>\<open>model/compiler.cc\<close>) and the backward reachability strategy (\<^verbatim>\<open>bmc/backward.cc\<close>).
  Every \<^verbatim>\<open>assert\<close>, every read past the end of a vector, every access through an
  invalid pointer and every division or shift that C++ leaves undefined is a branch of
  the model that returns an \<open>error\<close>; sums and products of machine integers wrap around.
\<close>

section \<open>Values, errors and expressions\<close>

text \<open>
  \<^verbatim>\<open>value_t\<close> is a machine integer; its typedef is not among the sources. It is taken
  to be a signed integer of 64 bits in two's complement: a value is an integer between
  \<open>- 2 ^ 63\<close> and \<open>2 ^ 63 - 1\<close>, and \<open>wrap_value\<close> is the wrap-around of an arithmetic
  result into that range, written out where the source accumulates or shifts.
\<close>

type_synonym value_t = int

definition wrap_value :: "int \<Rightarrow> value_t" where
  "wrap_value x = (x + 2 ^ 63) mod 2 ^ 64 - 2 ^ 63"

datatype error =
    AssertionFailed
  | OutOfRange
  | StackUnderflow
  | NullExpr
  | DivisionByZero
  | UndefinedShift
  | UndefinedDivision
  | InvalidPointer
  | NotNumeric
  | UnresolvedSymbol
  | Unsupported
  | OutOfFuel

datatype ExprType =
    NEXT | PREV | NEG | NOT
  | PLUS | SUB | DIV | MUL | MOD
  | AND | OR | XOR | XNOR | IMPLIES | IFF
  | LSHIFT | RSHIFT
  | EQ | NE | GT | GE | LT | LE
  | ITE | COND | DOT | PARAMS | SUBSCRIPT | COMMA

datatype Expr =
    Identifier string
  | Numeric value_t
  | Unary ExprType Expr
  | Binary ExprType Expr Expr

text \<open>
  \<^verbatim>\<open>step_t\<close> is an unsigned machine integer: the backward strategy counts time down from
  \<^verbatim>\<open>UINT_MAX\<close>. It is modelled as a 32-bit word, with the wrap-around of C++.
\<close>

type_synonym step_t = "32 word"

definition UINT_MAX :: step_t where
  "UINT_MAX = - 1"

text \<open>A fully-qualified timed expression: context, expression, step.\<close>

datatype FQExpr = FQExpr (fq_ctx: Expr) (fq_expr: Expr) (fq_time: step_t)

section \<open>The decision diagram package\<close>

text \<open>
  The ADD package is an external library. An ADD is modelled by the term of package
  operations that built it, and \<open>Eval\<close> gives the constant the diagram evaluates to under
  an assignment of its bits. \<open>Plus\<close> and \<open>Times\<close> are the arithmetic of the terminals,
  \<open>BWTimes\<close> and \<open>BWOr\<close> their bitwise conjunction and disjunction; \<open>Cmpl\<close>, \<open>Or\<close> and
  \<open>Xnor\<close> are the operations on 0-1 diagrams, for which a terminal other than 0 counts as
  true. Two diagrams are the same node of the package exactly when they evaluate alike
  under every assignment (\<open>add_equal\<close>).
\<close>

datatype ADD =
    Bit nat
  | Constant value_t
  | Plus ADD ADD
  | Times ADD ADD
  | Cmpl ADD
  | Or ADD ADD
  | Xnor ADD ADD
  | BWTimes ADD ADD
  | BWOr ADD ADD

type_synonym DDVector = "ADD list"

type_synonym assignment = "nat \<Rightarrow> bool"

fun Eval :: "ADD \<Rightarrow> assignment \<Rightarrow> value_t" where
  "Eval (Bit i) A = (if A i then 1 else 0)"
| "Eval (Constant v) A = v"
| "Eval (Plus f g) A = Eval f A + Eval g A"
| "Eval (Times f g) A = Eval f A * Eval g A"
| "Eval (Cmpl f) A = (if Eval f A = 0 then 1 else 0)"
| "Eval (Or f g) A = (if Eval f A \<noteq> 0 \<or> Eval g A \<noteq> 0 then 1 else 0)"
| "Eval (Xnor f g) A = (if (Eval f A \<noteq> 0) = (Eval g A \<noteq> 0) then 1 else 0)"
| "Eval (BWTimes f g) A = and (Eval f A) (Eval g A)"
| "Eval (BWOr f g) A = or (Eval f A) (Eval g A)"

definition add_equal :: "ADD \<Rightarrow> ADD \<Rightarrow> bool" where
  "add_equal f g \<longleftrightarrow> (\<forall>A. Eval f A = Eval g A)"

section \<open>Encodings (enc.cc)\<close>

text \<open>
  The encoding manager hands out fresh bits; its only state that matters here is the
  index of the next bit, threaded through every constructor.
\<close>

record Encoding =
  f_bits :: DDVector
  f_dv :: DDVector

record AlgebraicEncoding = Encoding +
  f_width :: nat
  f_fract :: nat
  f_signed :: bool
  f_temporary :: bool

record EnumEncoding = Encoding +
  f_v2e_map :: "value_t \<rightharpoonup> Expr"
  f_e2v_map :: "Expr \<rightharpoonup> value_t"

record ArrayEncoding = Encoding +
  f_elements :: "Encoding list"

text \<open>\<^verbatim>\<open>Encoding::make_bit\<close>: a fresh bit, recorded in \<open>f_bits\<close>.\<close>

definition make_bit :: "nat \<Rightarrow> DDVector \<Rightarrow> ADD \<times> nat \<times> DDVector" where
  "make_bit nxt bits = (Bit nxt, Suc nxt, bits @ [Bit nxt])"

text \<open>The \<^verbatim>\<open>while (i < nbits)\<close> loop of \<^verbatim>\<open>Encoding::make_monolithic_encoding\<close>.\<close>

function monolithic_loop ::
  "nat \<Rightarrow> nat \<Rightarrow> ADD \<Rightarrow> nat \<Rightarrow> DDVector \<Rightarrow> ADD \<times> nat \<times> DDVector" where
  "monolithic_loop i nbits res nxt bits =
     (if i < nbits then
        (case make_bit nxt bits of
           (b, nxt', bits') \<Rightarrow>
             monolithic_loop (Suc i) nbits (Plus (Times res (Constant 2)) b) nxt' bits')
      else (res, nxt, bits))"
  by pat_completeness auto
termination
  by (relation "measure (\<lambda>(i, nbits, res, nxt, bits). nbits - i)") auto

declare monolithic_loop.simps [simp del]

definition make_monolithic_encoding ::
  "nat \<Rightarrow> nat \<Rightarrow> DDVector \<Rightarrow> error + ADD \<times> nat \<times> DDVector" where
  "make_monolithic_encoding nbits nxt bits =
     (case make_bit nxt bits of
        (res, nxt', bits') \<Rightarrow>
          if 0 < nbits then Inr (monolithic_loop 1 nbits res nxt' bits')
          else Inl AssertionFailed)"

text \<open>Modelled from the spec: \<^verbatim>\<open>NIBBLE_SIZE\<close>, whose definition is not in the sources; an
  algebraic digit is a nibble of 4 bits.\<close>

definition NIBBLE_SIZE :: nat where
  "NIBBLE_SIZE = 4"

text \<open>
  \<^verbatim>\<open>AlgebraicEncoding::AlgebraicEncoding\<close>. The array \<open>dds\<close> is \<open>None\<close> for the null pointer.
  A temporary encoding copies \<open>dds[0..width-1]\<close>; an ordinary one builds one monolithic
  nibble per digit.
\<close>

function temporary_loop :: "nat \<Rightarrow> nat \<Rightarrow> ADD list \<Rightarrow> DDVector \<Rightarrow> error + DDVector" where
  "temporary_loop i width dds dv =
     (if i < width then
        (if i < length dds then temporary_loop (Suc i) width dds (dv @ [dds ! i])
         else Inl OutOfRange)
      else Inr dv)"
  by pat_completeness auto
termination
  by (relation "measure (\<lambda>(i, width, dds, dv). width - i)") auto

declare temporary_loop.simps [simp del]

function digits_loop ::
  "nat \<Rightarrow> nat \<Rightarrow> nat \<Rightarrow> DDVector \<Rightarrow> DDVector \<Rightarrow> error + nat \<times> DDVector \<times> DDVector" where
  "digits_loop i width nxt bits dv =
     (if i < width then
        (case make_monolithic_encoding NIBBLE_SIZE nxt bits of
           Inl e \<Rightarrow> Inl e
         | Inr (d, nxt', bits') \<Rightarrow> digits_loop (Suc i) width nxt' bits' (dv @ [d]))
      else Inr (nxt, bits, dv))"
  by pat_completeness auto
termination
  by (relation "measure (\<lambda>(i, width, nxt, bits, dv). width - i)") auto

declare digits_loop.simps [simp del]

definition new_AlgebraicEncoding ::
  "nat \<Rightarrow> nat \<Rightarrow> bool \<Rightarrow> ADD list option \<Rightarrow> nat \<Rightarrow> error + AlgebraicEncoding \<times> nat" where
  "new_AlgebraicEncoding width fract is_signed dds nxt =
     (case dds of
        Some ds \<Rightarrow>
          (case temporary_loop 0 width ds [] of
             Inl e \<Rightarrow> Inl e
           | Inr dv \<Rightarrow>
               Inr (\<lparr>f_bits = [], f_dv = dv, f_width = width, f_fract = fract,
                     f_signed = is_signed, f_temporary = True\<rparr>, nxt))
      | None \<Rightarrow>
          (case digits_loop 0 width nxt [] [] of
             Inl e \<Rightarrow> Inl e
           | Inr (nxt', bits, dv) \<Rightarrow>
               Inr (\<lparr>f_bits = bits, f_dv = dv, f_width = width, f_fract = fract,
                     f_signed = is_signed, f_temporary = False\<rparr>, nxt')))"

text \<open>
  \<^verbatim>\<open>AlgebraicEncoding::expr\<close>: the \<^verbatim>\<open>do ... while (true)\<close> loop reads \<open>f_dv[i]\<close>, adds the
  digit and multiplies by \<open>0x10\<close> while another digit follows. The accumulator \<open>res\<close> is
  a \<^verbatim>\<open>value_t\<close>: \<^verbatim>\<open>res += ...\<close> and \<^verbatim>\<open>res *= 0x10\<close> wrap around.
\<close>

function expr_loop ::
  "DDVector \<Rightarrow> nat \<Rightarrow> assignment \<Rightarrow> nat \<Rightarrow> value_t \<Rightarrow> error + value_t" where
  "expr_loop dv width A i res =
     (if i < length dv then
        (let res' = wrap_value (res + Eval (dv ! i) A) in
         if Suc i < width then expr_loop dv width A (Suc i) (wrap_value (res' * 0x10))
         else Inr res')
      else Inl OutOfRange)"
  by pat_completeness auto
termination
  by (relation "measure (\<lambda>(dv, width, A, i, res). length dv - i)") auto

declare expr_loop.simps [simp del]

definition AlgebraicEncoding_expr :: "AlgebraicEncoding \<Rightarrow> assignment \<Rightarrow> error + Expr" where
  "AlgebraicEncoding_expr enc A =
     (case expr_loop (f_dv enc) (f_width enc) A 0 0 of
        Inl e \<Rightarrow> Inl e
      | Inr res \<Rightarrow> Inr (Numeric res))"

text \<open>\<^verbatim>\<open>MonolithicEncoding::range_repr_bits\<close>.\<close>

function range_repr_loop :: "nat \<Rightarrow> nat \<Rightarrow> nat" where
  "range_repr_loop res rng =
     (if rng \<noteq> 0 then range_repr_loop (Suc res) (rng div 2) else res)"
  by pat_completeness auto
termination
  by (relation "measure (\<lambda>(res, rng). rng)") auto

declare range_repr_loop.simps [simp del]

definition range_repr_bits :: "nat \<Rightarrow> error + nat" where
  "range_repr_bits rng =
     (if 0 < rng then Inr (range_repr_loop 0 rng) else Inl AssertionFailed)"

text \<open>
  \<^verbatim>\<open>EnumEncoding::EnumEncoding\<close>. The literal set is given by its iteration order, a list
  without repetitions. The ADD returned by \<^verbatim>\<open>make_monolithic_encoding\<close> is dropped by
  the constructor: only the bits it allocated are kept, \<open>f_dv\<close> stays empty.
\<close>

fun enum_loop ::
  "value_t \<Rightarrow> Expr list \<Rightarrow> (value_t \<rightharpoonup> Expr) \<Rightarrow> (Expr \<rightharpoonup> value_t)
     \<Rightarrow> (value_t \<rightharpoonup> Expr) \<times> (Expr \<rightharpoonup> value_t)" where
  "enum_loop v [] v2e e2v = (v2e, e2v)"
| "enum_loop v (eye # lits) v2e e2v =
     enum_loop (v + 1) lits (v2e(v \<mapsto> eye)) (e2v(eye \<mapsto> v))"

definition new_EnumEncoding :: "Expr list \<Rightarrow> nat \<Rightarrow> error + EnumEncoding \<times> nat" where
  "new_EnumEncoding lits nxt =
     (case range_repr_bits (length lits) of
        Inl e \<Rightarrow> Inl e
      | Inr nbits \<Rightarrow>
          (case make_monolithic_encoding nbits nxt [] of
             Inl e \<Rightarrow> Inl e
           | Inr (d, nxt', bits) \<Rightarrow>
               (case enum_loop 0 lits Map.empty Map.empty of
                  (v2e, e2v) \<Rightarrow>
                    Inr (\<lparr>f_bits = bits, f_dv = [], f_v2e_map = v2e, f_e2v_map = e2v\<rparr>,
                         nxt'))))"

text \<open>
  \<^verbatim>\<open>EnumEncoding::expr\<close> reads \<open>f_dv[0]\<close>; \<^verbatim>\<open>operator[]\<close> on a value without a literal
  yields the null expression.
\<close>

definition EnumEncoding_expr :: "EnumEncoding \<Rightarrow> assignment \<Rightarrow> error + Expr" where
  "EnumEncoding_expr enc A =
     (case f_dv enc of
        [] \<Rightarrow> Inl OutOfRange
      | d # _ \<Rightarrow>
          (case f_v2e_map enc (Eval d A) of
             None \<Rightarrow> Inl NullExpr
           | Some e \<Rightarrow> Inr e))"

text \<open>\<^verbatim>\<open>ArrayEncoding::ArrayEncoding\<close> and \<^verbatim>\<open>ArrayEncoding::expr\<close>.\<close>

fun array_loop :: "Encoding list \<Rightarrow> DDVector \<Rightarrow> DDVector" where
  "array_loop [] dv = dv"
| "array_loop (e # es) dv = array_loop es (dv @ f_dv e)"

definition new_ArrayEncoding :: "Encoding list \<Rightarrow> error + ArrayEncoding" where
  "new_ArrayEncoding elements =
     (if 0 < length elements then
        Inr \<lparr>f_bits = [], f_dv = array_loop elements [], f_elements = elements\<rparr>
      else Inl AssertionFailed)"

definition ArrayEncoding_expr :: "ArrayEncoding \<Rightarrow> assignment \<Rightarrow> error + Expr" where
  "ArrayEncoding_expr enc A = Inl AssertionFailed"

section \<open>The witness store (witness.cc)\<close>

text \<open>
  A \<^verbatim>\<open>TimeFrame\<close> has one member, the map \<^verbatim>\<open>f_map\<close> from timed expressions to values;
  the model identifies the frame with that map. \<^verbatim>\<open>insert\<close> on a map of the standard
  library leaves the map unchanged when the key is already bound; the \<^verbatim>\<open>assert\<close> of
  \<^verbatim>\<open>value\<close> is the error \<open>AssertionFailed\<close>.
\<close>

type_synonym TimeFrame = "FQExpr \<rightharpoonup> Expr"

definition new_TimeFrame :: TimeFrame where
  "new_TimeFrame = Map.empty"

definition "value" :: "TimeFrame \<Rightarrow> FQExpr \<Rightarrow> error + Expr" where
  "value f_map key =
     (case f_map key of
        None \<Rightarrow> Inl AssertionFailed
      | Some v \<Rightarrow> Inr v)"

definition has_value :: "TimeFrame \<Rightarrow> FQExpr \<Rightarrow> bool" where
  "has_value f_map key \<longleftrightarrow> f_map key \<noteq> None"

definition set_value :: "FQExpr \<Rightarrow> Expr \<Rightarrow> TimeFrame \<Rightarrow> TimeFrame" where
  "set_value fqexpr v f_map =
     (if f_map fqexpr = None then f_map(fqexpr \<mapsto> v) else f_map)"

text \<open>A run of a frame: the calls of \<^verbatim>\<open>set_value\<close> made on it, in order.\<close>

fun set_values :: "(FQExpr \<times> Expr) list \<Rightarrow> TimeFrame \<Rightarrow> TimeFrame" where
  "set_values [] f = f"
| "set_values ((k, v) # ops) f = set_values ops (set_value k v f)"

text \<open>
  Modelled from the spec: the lookup of a timed expression in a \<^verbatim>\<open>Witness\<close>, whose
  \<^verbatim>\<open>has_value\<close> and \<^verbatim>\<open>value\<close> are declared outside the sources. A witness is the ordered
  sequence of its time frames, numbered from 0; a key is looked up in the frame of its
  own step.
\<close>

type_synonym Witness = "TimeFrame list"

definition Witness_has_value :: "Witness \<Rightarrow> FQExpr \<Rightarrow> bool" where
  "Witness_has_value w key \<longleftrightarrow>
     unat (fq_time key) < length w \<and> has_value (w ! unat (fq_time key)) key"

definition Witness_value :: "Witness \<Rightarrow> FQExpr \<Rightarrow> error + Expr" where
  "Witness_value w key =
     (if unat (fq_time key) < length w then value (w ! unat (fq_time key)) key
      else Inl OutOfRange)"

section \<open>The witness evaluator (expr_eval.cc)\<close>

text \<open>
  The resolver is an external collaborator: \<open>symbol ctx expr\<close> is the symbol an identifier
  resolves to in a context, \<open>None\<close> when resolution fails.
\<close>

datatype ISymbol = Variable | Define Expr | OtherSymbol

type_synonym Resolver = "Expr \<Rightarrow> Expr \<Rightarrow> ISymbol option"

record Evaluator =
  f_expr_stack :: "Expr list"
  f_ctx_stack :: "Expr list"
  f_time_stack :: "step_t list"
  f_witness :: Witness
  f_map :: "FQExpr \<rightharpoonup> Expr"

text \<open>
  The macros \<^verbatim>\<open>POP_VALUE\<close> and \<^verbatim>\<open>PUSH_VALUE\<close> are not in the sources; they are modelled
  after \<^verbatim>\<open>POP_EXPR\<close> and \<^verbatim>\<open>PUSH_EXPR\<close> of the evaluator's header. The stack holds the
  expressions \<^verbatim>\<open>walk_leaf\<close> pushes; \<^verbatim>\<open>POP_VALUE\<close> takes the back of the stack and reads the
  value of a numeric literal, \<^verbatim>\<open>PUSH_VALUE\<close> pushes the literal of a value. The back of a
  vector is the last element of the list.
\<close>

definition POP_VALUE :: "Evaluator \<Rightarrow> error + value_t \<times> Evaluator" where
  "POP_VALUE s =
     (if f_expr_stack s = [] then Inl StackUnderflow
      else case last (f_expr_stack s) of
             Numeric v \<Rightarrow> Inr (v, s\<lparr>f_expr_stack := butlast (f_expr_stack s)\<rparr>)
           | _ \<Rightarrow> Inl NotNumeric)"

definition PUSH_VALUE :: "value_t \<Rightarrow> Evaluator \<Rightarrow> Evaluator" where
  "PUSH_VALUE v s = s\<lparr>f_expr_stack := f_expr_stack s @ [Numeric v]\<rparr>"

definition PUSH_EXPR :: "Expr \<Rightarrow> Evaluator \<Rightarrow> Evaluator" where
  "PUSH_EXPR e s = s\<lparr>f_expr_stack := f_expr_stack s @ [e]\<rparr>"

text \<open>The value of a C++ comparison or negation: 1 for true, 0 for false.\<close>

definition of_bool_value :: "bool \<Rightarrow> value_t" where
  "of_bool_value b = (if b then 1 else 0)"

text \<open>
  The right-hand sides of the binary postorder hooks, one per operator, as written in
  the source (\<open>lhs / rhs\<close> in \<^verbatim>\<open>walk_mul_postorder\<close>, \<open>lhs << rhs\<close> in
  \<^verbatim>\<open>walk_rshift_postorder\<close>). Sums and differences wrap around. Division and remainder
  truncate towards zero and are undefined for a zero divisor and for the least value
  divided by \<open>- 1\<close>, whose quotient does not fit. The shift \<open>lhs << rhs\<close> of a 64-bit \<^verbatim>\<open>value_t\<close> is undefined
  when the count is negative or not below 64, when \<open>lhs\<close> is negative, and when
  \<open>lhs * 2 ^ rhs\<close> does not fit 64 unsigned bits; otherwise it is that product, wrapped
  into the range of \<^verbatim>\<open>value_t\<close>.
\<close>

definition shift_left :: "value_t \<Rightarrow> value_t \<Rightarrow> error + value_t" where
  "shift_left lhs rhs =
     (if rhs < 0 \<or> 64 \<le> rhs then Inl UndefinedShift
      else if lhs < 0 then Inl UndefinedShift
      else if 2 ^ 64 \<le> push_bit (nat rhs) lhs then Inl UndefinedShift
      else Inr (wrap_value (push_bit (nat rhs) lhs)))"

definition divide :: "value_t \<Rightarrow> value_t \<Rightarrow> error + value_t" where
  "divide lhs rhs =
     (if rhs = 0 then Inl DivisionByZero
      else if lhs = - (2 ^ 63) \<and> rhs = - 1 then Inl UndefinedDivision
      else Inr (lhs sdiv rhs))"

definition remainder :: "value_t \<Rightarrow> value_t \<Rightarrow> error + value_t" where
  "remainder lhs rhs =
     (if rhs = 0 then Inl DivisionByZero
      else if lhs = - (2 ^ 63) \<and> rhs = - 1 then Inl UndefinedDivision
      else Inr (lhs smod rhs))"

definition xnor_value :: "value_t \<Rightarrow> value_t \<Rightarrow> value_t" where
  "xnor_value lhs rhs =
     and (or (of_bool_value (lhs = 0)) rhs) (or (of_bool_value (rhs = 0)) lhs)"

fun binary_result :: "ExprType \<Rightarrow> value_t \<Rightarrow> value_t \<Rightarrow> error + value_t" where
  "binary_result PLUS lhs rhs = Inr (wrap_value (lhs + rhs))"
| "binary_result SUB lhs rhs = Inr (wrap_value (lhs - rhs))"
| "binary_result DIV lhs rhs = divide lhs rhs"
| "binary_result MUL lhs rhs = divide lhs rhs"
| "binary_result MOD lhs rhs = remainder lhs rhs"
| "binary_result AND lhs rhs = Inr (and lhs rhs)"
| "binary_result OR lhs rhs = Inr (or lhs rhs)"
| "binary_result XOR lhs rhs = Inr (xor lhs rhs)"
| "binary_result XNOR lhs rhs = Inr (xnor_value lhs rhs)"
| "binary_result IMPLIES lhs rhs = Inr (or (of_bool_value (lhs = 0)) rhs)"
| "binary_result IFF lhs rhs = Inr (xnor_value lhs rhs)"
| "binary_result LSHIFT lhs rhs = shift_left lhs rhs"
| "binary_result RSHIFT lhs rhs = shift_left lhs rhs"
| "binary_result EQ lhs rhs = Inr (of_bool_value (lhs = rhs))"
| "binary_result NE lhs rhs = Inr (of_bool_value (lhs \<noteq> rhs))"
| "binary_result GT lhs rhs = Inr (of_bool_value (lhs > rhs))"
| "binary_result GE lhs rhs = Inr (of_bool_value (lhs \<ge> rhs))"
| "binary_result LT lhs rhs = Inr (of_bool_value (lhs < rhs))"
| "binary_result LE lhs rhs = Inr (of_bool_value (lhs \<le> rhs))"
| "binary_result _ lhs rhs = Inl Unsupported"

text \<open>The hooks that pop \<open>rhs\<close>, then \<open>lhs\<close>, and push the result.\<close>

definition walk_binary_postorder :: "ExprType \<Rightarrow> Evaluator \<Rightarrow> error + Evaluator" where
  "walk_binary_postorder op s =
     (case POP_VALUE s of
        Inl e \<Rightarrow> Inl e
      | Inr (rhs, s1) \<Rightarrow>
          (case POP_VALUE s1 of
             Inl e \<Rightarrow> Inl e
           | Inr (lhs, s2) \<Rightarrow>
               (case binary_result op lhs rhs of
                  Inl e \<Rightarrow> Inl e
                | Inr res \<Rightarrow> Inr (PUSH_VALUE res s2))))"

definition walk_mul_postorder :: "Evaluator \<Rightarrow> error + Evaluator" where
  "walk_mul_postorder = walk_binary_postorder MUL"

definition walk_rshift_postorder :: "Evaluator \<Rightarrow> error + Evaluator" where
  "walk_rshift_postorder = walk_binary_postorder RSHIFT"

definition walk_not_postorder :: "Evaluator \<Rightarrow> error + Evaluator" where
  "walk_not_postorder s =
     (case POP_VALUE s of
        Inl e \<Rightarrow> Inl e
      | Inr (lhs, s1) \<Rightarrow> Inr (PUSH_VALUE (of_bool_value (lhs = 0)) s1))"

definition walk_ite_postorder :: "Evaluator \<Rightarrow> error + Evaluator" where
  "walk_ite_postorder s =
     (case POP_VALUE s of
        Inl e \<Rightarrow> Inl e
      | Inr (rhs, s1) \<Rightarrow>
          (case POP_VALUE s1 of
             Inl e \<Rightarrow> Inl e
           | Inr (lhs, s2) \<Rightarrow>
               (case POP_VALUE s2 of
                  Inl e \<Rightarrow> Inl e
                | Inr (cnd, s3) \<Rightarrow> Inr (PUSH_VALUE (if cnd \<noteq> 0 then lhs else rhs) s3))))"

definition pop_time :: "Evaluator \<Rightarrow> error + Evaluator" where
  "pop_time s =
     (if 0 < length (f_time_stack s) then Inr (s\<lparr>f_time_stack := butlast (f_time_stack s)\<rparr>)
      else Inl AssertionFailed)"

text \<open>
  The postorder hook of every operator. \<^verbatim>\<open>walk_neg_postorder\<close> delegates to helpers that
  are not in the sources (\<open>Unsupported\<close>); \<^verbatim>\<open>walk_params_postorder\<close>,
  \<^verbatim>\<open>walk_comma_postorder\<close> and \<^verbatim>\<open>walk_subscript_postorder\<close> assert false;
  \<^verbatim>\<open>walk_cond_postorder\<close> and \<^verbatim>\<open>walk_dot_postorder\<close> do nothing.
\<close>

fun walk_postorder :: "ExprType \<Rightarrow> Evaluator \<Rightarrow> error + Evaluator" where
  "walk_postorder NEXT s = pop_time s"
| "walk_postorder PREV s = pop_time s"
| "walk_postorder NEG s = Inl Unsupported"
| "walk_postorder NOT s = walk_not_postorder s"
| "walk_postorder MUL s = walk_mul_postorder s"
| "walk_postorder RSHIFT s = walk_rshift_postorder s"
| "walk_postorder ITE s = walk_ite_postorder s"
| "walk_postorder COND s = Inr s"
| "walk_postorder DOT s = Inr s"
| "walk_postorder PARAMS s = Inl AssertionFailed"
| "walk_postorder SUBSCRIPT s = Inl AssertionFailed"
| "walk_postorder COMMA s = Inl AssertionFailed"
| "walk_postorder op s = walk_binary_postorder op s"

text \<open>\<^verbatim>\<open>Evaluator::cache_miss\<close>: a hit pushes the cached result and returns false.\<close>

definition Evaluator_cache_miss :: "Expr \<Rightarrow> Evaluator \<Rightarrow> error + bool \<times> Evaluator" where
  "Evaluator_cache_miss e s =
     (if \<not> 0 < length (f_ctx_stack s) then Inl AssertionFailed
      else if \<not> 0 < length (f_time_stack s) then Inl AssertionFailed
      else case f_map s (FQExpr (last (f_ctx_stack s)) e (last (f_time_stack s))) of
             Some res \<Rightarrow> Inr (False, PUSH_EXPR res s)
           | None \<Rightarrow> Inr (True, s))"

text \<open>The preorder hooks: \<^verbatim>\<open>next\<close> and \<^verbatim>\<open>prev\<close> push a time, all others ask the cache.\<close>

definition walk_preorder :: "ExprType \<Rightarrow> Expr \<Rightarrow> Evaluator \<Rightarrow> error + bool \<times> Evaluator" where
  "walk_preorder op e s =
     (if op = NEXT then
        (if f_time_stack s = [] then Inl StackUnderflow
         else Inr (True, s\<lparr>f_time_stack := f_time_stack s @ [last (f_time_stack s) + 1]\<rparr>))
      else if op = PREV then
        (if f_time_stack s = [] then Inl StackUnderflow
         else Inr (True, s\<lparr>f_time_stack := f_time_stack s @ [last (f_time_stack s) - 1]\<rparr>))
      else Evaluator_cache_miss e s)"

definition is_unary_op :: "ExprType \<Rightarrow> bool" where
  "is_unary_op op \<longleftrightarrow> op \<in> {NEXT, PREV, NEG, NOT}"

text \<open>
  Modelled from the spec: the expression walker itself, whose source file is not among
  the sources. It visits each node in preorder, inorder (binary nodes only) and postorder;
  a preorder hook that returns false skips the subtree and the node's postorder. Every
  inorder hook of the evaluator returns true, so the right operand is always visited.
  \<^verbatim>\<open>walk_leaf\<close> is inlined in the two leaf cases. A define is evaluated by a re-entrant
  call of the walker on its body; \<open>fuel\<close> bounds the nesting of such calls.
\<close>

fun walk :: "nat \<Rightarrow> Resolver \<Rightarrow> Expr \<Rightarrow> Evaluator \<Rightarrow> error + Evaluator" where
  "walk fuel R (Numeric v) s =
     (case Evaluator_cache_miss (Numeric v) s of
        Inl e \<Rightarrow> Inl e
      | Inr (False, s1) \<Rightarrow> Inr s1
      | Inr (True, s1) \<Rightarrow> Inr (PUSH_EXPR (Numeric v) s1))"
| "walk fuel R (Identifier n) s =
     (case Evaluator_cache_miss (Identifier n) s of
        Inl e \<Rightarrow> Inl e
      | Inr (False, s1) \<Rightarrow> Inr s1
      | Inr (True, s1) \<Rightarrow>
          (case R (last (f_ctx_stack s1)) (Identifier n) of
             None \<Rightarrow> Inl UnresolvedSymbol
           | Some Variable \<Rightarrow>
               (let key = FQExpr (last (f_ctx_stack s1)) (Identifier n) (last (f_time_stack s1)) in
                if Witness_has_value (f_witness s1) key then
                  (case Witness_value (f_witness s1) key of
                     Inl e \<Rightarrow> Inl e
                   | Inr res \<Rightarrow> Inr (PUSH_EXPR res s1))
                else Inl AssertionFailed)
           | Some (Define b) \<Rightarrow>
               (case fuel of
                  0 \<Rightarrow> Inl OutOfFuel
                | Suc fuel' \<Rightarrow> walk fuel' R b s1)
           | Some OtherSymbol \<Rightarrow> Inl AssertionFailed))"
| "walk fuel R (Unary op a) s =
     (if \<not> is_unary_op op then Inl AssertionFailed
      else case walk_preorder op (Unary op a) s of
             Inl e \<Rightarrow> Inl e
           | Inr (False, s1) \<Rightarrow> Inr s1
           | Inr (True, s1) \<Rightarrow>
               (case walk fuel R a s1 of
                  Inl e \<Rightarrow> Inl e
                | Inr s2 \<Rightarrow> walk_postorder op s2))"
| "walk fuel R (Binary op a b) s =
     (if is_unary_op op then Inl AssertionFailed
      else case walk_preorder op (Binary op a b) s of
             Inl e \<Rightarrow> Inl e
           | Inr (False, s1) \<Rightarrow> Inr s1
           | Inr (True, s1) \<Rightarrow>
               (case walk fuel R a s1 of
                  Inl e \<Rightarrow> Inl e
                | Inr s2 \<Rightarrow>
                    (case walk fuel R b s2 of
                       Inl e \<Rightarrow> Inl e
                     | Inr s3 \<Rightarrow> walk_postorder op s3)))"

text \<open>
  \<^verbatim>\<open>Evaluator::process\<close>: clear the stacks and the cache, set the environment, walk the
  body, check that each stack holds one element, return the back of the expression stack.
\<close>

definition process ::
  "nat \<Rightarrow> Resolver \<Rightarrow> Witness \<Rightarrow> Expr \<Rightarrow> Expr \<Rightarrow> step_t \<Rightarrow> error + Expr" where
  "process fuel R witness ctx body time =
     (case walk fuel R body
             \<lparr>f_expr_stack = [], f_ctx_stack = [ctx], f_time_stack = [time],
              f_witness = witness, f_map = Map.empty\<rparr> of
        Inl e \<Rightarrow> Inl e
      | Inr s \<Rightarrow>
          if length (f_expr_stack s) \<noteq> 1 then Inl AssertionFailed
          else if length (f_ctx_stack s) \<noteq> 1 then Inl AssertionFailed
          else if length (f_time_stack s) \<noteq> 1 then Inl AssertionFailed
          else Inr (last (f_expr_stack s)))"

text \<open>\<^verbatim>\<open>WitnessMgr::eval\<close> delegates to the evaluator.\<close>

definition eval :: "nat \<Rightarrow> Resolver \<Rightarrow> Witness \<Rightarrow> Expr \<Rightarrow> Expr \<Rightarrow> step_t \<Rightarrow> error + Expr" where
  "eval fuel R w ctx formula k = process fuel R w ctx formula k"

section \<open>The compiler's internal services (internals.cc)\<close>

text \<open>Types, as declared in \<^verbatim>\<open>type.hh\<close>.\<close>

datatype Type =
    BooleanType
  | IntConstType
  | FxdConstType
  | SignedAlgebraicType nat
  | UnsignedAlgebraicType nat
  | SignedFixedAlgebraicType nat nat
  | UnsignedFixedAlgebraicType nat nat
  | ArrayType Type nat
  | EnumType "Expr list"
  | Instance Expr

text \<open>Descriptors, as declared in \<^verbatim>\<open>micro.hh\<close>.\<close>

type_synonym OpTriple = "bool \<times> ExprType \<times> nat"

definition make_op_triple :: "bool \<Rightarrow> ExprType \<Rightarrow> nat \<Rightarrow> OpTriple" where
  "make_op_triple is_signed exprType width = (is_signed, exprType, width)"

datatype MicroDescriptor =
  MicroDescriptor (triple: OpTriple) (micro_z: DDVector) (micro_x: DDVector) (micro_y: DDVector)

datatype MuxDescriptor =
  MuxDescriptor (mux_width: nat) (mux_z: DDVector) (cnd: ADD) (aux: ADD)
    (mux_x: DDVector) (mux_y: DDVector)

type_synonym MicroDescriptors = "MicroDescriptor list"

type_synonym MuxDescriptors = "MuxDescriptor list"

text \<open>
  \<^verbatim>\<open>MuxMap\<close> is an unordered map from toplevel expressions to descriptor lists. It is
  modelled by an association list in which every key occurs once; the order of the list
  stands for the iteration order of the map. \<^verbatim>\<open>insert\<close> keeps an existing entry.
\<close>

type_synonym MuxMap = "(Expr \<times> MuxDescriptors) list"

definition mux_find :: "MuxMap \<Rightarrow> Expr \<Rightarrow> MuxDescriptors option" where
  "mux_find m toplevel = map_of m toplevel"

definition mux_insert :: "Expr \<times> MuxDescriptors \<Rightarrow> MuxMap \<Rightarrow> MuxMap" where
  "mux_insert entry m = (if mux_find m (fst entry) = None then m @ [entry] else m)"

definition mux_push_back :: "Expr \<Rightarrow> MuxDescriptor \<Rightarrow> MuxMap \<Rightarrow> MuxMap" where
  "mux_push_back toplevel md m =
     map (\<lambda>(k, ds). if k = toplevel then (k, ds @ [md]) else (k, ds)) m"

datatype CompilationUnit =
  CompilationUnit (unit_dds: DDVector) (unit_micro_descriptors: MicroDescriptors)
    (unit_mux_map: MuxMap)

text \<open>
  The model manager is an external collaborator of the compiler: \<open>type_of expr ctx\<close> is
  \<^verbatim>\<open>f_owner.type(expr, ctx)\<close>, \<open>is_type\<close> is the expression manager's predicate, and
  \<open>type_width\<close> is \<^verbatim>\<open>Type::width()\<close>, the number of DDs of a value of the type.
\<close>

record ModelMgr =
  type_of :: "Expr \<Rightarrow> Expr \<Rightarrow> Type"
  is_type :: "Expr \<Rightarrow> bool"
  type_width :: "Type \<Rightarrow> nat"

record Compiler =
  f_add_stack :: "ADD list"
  f_type_stack :: "Type list"
  f_ctx_stack :: "Expr list"
  f_time_stack :: "step_t list"
  f_micro_descriptors :: MicroDescriptors
  f_mux_map :: MuxMap
  f_cache :: "FQExpr \<rightharpoonup> CompilationUnit"
  f_preprocess :: bool

text \<open>\<^verbatim>\<open>Compiler::register_microdescriptor\<close>; the unary form leaves \<open>y\<close> empty.\<close>

definition register_microdescriptor ::
  "bool \<Rightarrow> ExprType \<Rightarrow> nat \<Rightarrow> DDVector \<Rightarrow> DDVector \<Rightarrow> DDVector \<Rightarrow> Compiler \<Rightarrow> Compiler" where
  "register_microdescriptor signedness symb width z x y s =
     s\<lparr>f_micro_descriptors :=
         f_micro_descriptors s @ [MicroDescriptor (make_op_triple signedness symb width) z x y]\<rparr>"

text \<open>\<^verbatim>\<open>Compiler::register_muxdescriptor\<close>.\<close>

definition register_muxdescriptor ::
  "Expr \<Rightarrow> nat \<Rightarrow> DDVector \<Rightarrow> ADD \<Rightarrow> ADD \<Rightarrow> DDVector \<Rightarrow> DDVector \<Rightarrow> Compiler \<Rightarrow> Compiler" where
  "register_muxdescriptor toplevel width z c a x y s =
     (let m = (if mux_find (f_mux_map s) toplevel = None
               then mux_insert (toplevel, []) (f_mux_map s)
               else f_mux_map s)
      in s\<lparr>f_mux_map := mux_push_back toplevel (MuxDescriptor width z c a x y) m\<rparr>)"

text \<open>
  \<^verbatim>\<open>Compiler::post_process_muxes\<close>. The inner loop runs over the descriptors of one
  toplevel from the last registered to the first; \<^verbatim>\<open>PUSH_DD\<close> pushes on the ADD stack;
  \<open>f_enc_zero\<close> is \<^verbatim>\<open>f_enc.zero()\<close>, the constant 0 of the encoding manager.
\<close>

definition f_enc_zero :: ADD where
  "f_enc_zero = Constant 0"

fun mux_activation_loop :: "ADD \<Rightarrow> MuxDescriptors \<Rightarrow> ADD list \<Rightarrow> ADD list" where
  "mux_activation_loop prev [] stack = stack"
| "mux_activation_loop prev (j # js) stack =
     (let act = Times (Cmpl prev) (cnd j)
      in mux_activation_loop act js (stack @ [Xnor act (aux j)]))"

fun mux_map_loop :: "MuxMap \<Rightarrow> ADD list \<Rightarrow> ADD list" where
  "mux_map_loop [] stack = stack"
| "mux_map_loop ((toplevel, descriptors) # m) stack =
     mux_map_loop m (mux_activation_loop f_enc_zero (rev descriptors) stack)"

definition post_process_muxes :: "Compiler \<Rightarrow> Compiler" where
  "post_process_muxes s = s\<lparr>f_add_stack := mux_map_loop (f_mux_map s) (f_add_stack s)\<rparr>"

text \<open>
  \<^verbatim>\<open>Compiler::post_node_hook\<close>: collect the top \<open>width\<close> DDs from the back of the stack
  downwards and memoize them with the whole microcode buffer and the whole MUX map.
  \<^verbatim>\<open>insert\<close> keeps an entry that is already cached.
\<close>

definition post_node_hook :: "ModelMgr \<Rightarrow> Expr \<Rightarrow> Compiler \<Rightarrow> error + Compiler" where
  "post_node_hook owner e s =
     (if f_preprocess s then Inr s
      else if is_type owner e then Inr s
      else if \<not> 0 < length (f_ctx_stack s) then Inl AssertionFailed
      else if \<not> 0 < length (f_time_stack s) then Inl AssertionFailed
      else if \<not> 0 < length (f_type_stack s) then Inl AssertionFailed
      else
        (let key = FQExpr (last (f_ctx_stack s)) e (last (f_time_stack s));
             width = type_width owner (last (f_type_stack s))
         in if \<not> width \<le> length (f_add_stack s) then Inl AssertionFailed
            else
              (let dv = take width (rev (f_add_stack s))
               in Inr (if f_cache s key = None
                       then s\<lparr>f_cache := (f_cache s)(key \<mapsto>
                                CompilationUnit dv (f_micro_descriptors s) (f_mux_map s))\<rparr>
                       else s))))"

text \<open>
  \<^verbatim>\<open>Compiler::cache_miss\<close>: on a hit, push the cached DDs in reverse, append the cached
  microcode descriptors, insert the cached MUX chains, push the type, return false.
\<close>

definition Compiler_cache_miss :: "ModelMgr \<Rightarrow> Expr \<Rightarrow> Compiler \<Rightarrow> error + bool \<times> Compiler" where
  "Compiler_cache_miss owner e s =
     (if f_ctx_stack s = [] \<or> f_time_stack s = [] then Inl StackUnderflow
      else
        (let c = last (f_ctx_stack s);
             key = FQExpr c e (last (f_time_stack s))
         in case f_cache s key of
              Some unit \<Rightarrow>
                Inr (False,
                     s\<lparr>f_add_stack := f_add_stack s @ rev (unit_dds unit),
                       f_micro_descriptors := f_micro_descriptors s @ unit_micro_descriptors unit,
                       f_mux_map := foldl (\<lambda>m entry. mux_insert entry m) (f_mux_map s)
                                      (unit_mux_map unit),
                       f_type_stack := f_type_stack s @ [type_of owner e c]\<rparr>)
            | None \<Rightarrow> Inr (True, s)))"

text \<open>
  Modelled from the spec: the compilation of a node on a cache miss. The operator hooks
  of this compiler are not in the sources; by the spec's sections on operator
  compilation and on the stack convention, compiling an expression registers microcode
  and MUX descriptors (through the two services above), pushes the result DDVector in
  reverse order, so that digit 0 is at the back of the stack, and pushes the resolved
  type; then the post-node hook memoizes the result. The registrations, the DDVector
  and the type are what the hooks produced in a given compilation.
\<close>

datatype registration =
    RegisterMicro bool ExprType nat DDVector DDVector DDVector
  | RegisterMux Expr nat DDVector ADD ADD DDVector DDVector

fun register :: "Compiler \<Rightarrow> registration \<Rightarrow> Compiler" where
  "register s (RegisterMicro signedness symb width z x y) =
     register_microdescriptor signedness symb width z x y s"
| "register s (RegisterMux toplevel width z c a x y) =
     register_muxdescriptor toplevel width z c a x y s"

definition emit :: "registration list \<Rightarrow> DDVector \<Rightarrow> Type \<Rightarrow> Compiler \<Rightarrow> Compiler" where
  "emit regs dv ty s =
     (let s' = foldl register s regs
      in s'\<lparr>f_add_stack := f_add_stack s' @ rev dv, f_type_stack := f_type_stack s' @ [ty]\<rparr>)"

definition cold_compile ::
  "ModelMgr \<Rightarrow> Expr \<Rightarrow> registration list \<Rightarrow> DDVector \<Rightarrow> Type \<Rightarrow> Compiler \<Rightarrow> error + Compiler" where
  "cold_compile owner e regs dv ty s = post_node_hook owner e (emit regs dv ty s)"

text \<open>
  The working buffers a compilation leaves behind: the ADD stack, the type stack, the
  microcode buffer and the MUX map.
\<close>

definition same_working_buffers :: "Compiler \<Rightarrow> Compiler \<Rightarrow> bool" where
  "same_working_buffers a b \<longleftrightarrow>
     f_add_stack a = f_add_stack b \<and> f_type_stack a = f_type_stack b \<and>
     f_micro_descriptors a = f_micro_descriptors b \<and> f_mux_map a = f_mux_map b"

text \<open>
  The activation clauses in the words of the specification, over a list of descriptors
  \<open>ds\<close>: \<open>prev\<^sub>0 = 0\<close>, \<open>prev\<^sub>k\<^sub>+\<^sub>1 = prev\<^sub>k \<or> cnd d\<^sub>k\<close>, and the clause of index \<open>k\<close> is
  \<open>Xnor (\<not> prev\<^sub>k \<and> cnd d\<^sub>k) (aux d\<^sub>k)\<close>.
\<close>

fun spec_prev :: "MuxDescriptors \<Rightarrow> nat \<Rightarrow> ADD" where
  "spec_prev ds 0 = f_enc_zero"
| "spec_prev ds (Suc k) = Or (spec_prev ds k) (cnd (ds ! k))"

definition spec_activation_clause :: "MuxDescriptors \<Rightarrow> nat \<Rightarrow> ADD" where
  "spec_activation_clause ds k =
     Xnor (Times (Cmpl (spec_prev ds k)) (cnd (ds ! k))) (aux (ds ! k))"

section \<open>The boolean compiler (compiler.cc)\<close>

text \<open>
  Modelled from the spec: the classification predicates of the type manager and of the
  expression manager, which are declared outside the sources. A type is monolithic when
  it is boolean or an enum, algebraic when it is a signed or unsigned integer or
  fixed-point type; the operator classes are those the compiler's own comment lists.
\<close>

definition is_boolean :: "Type \<Rightarrow> bool" where
  "is_boolean ty \<longleftrightarrow> ty = BooleanType"

fun is_enumerative :: "Type \<Rightarrow> bool" where
  "is_enumerative (EnumType lits) = True"
| "is_enumerative _ = False"

definition is_monolithic :: "Type \<Rightarrow> bool" where
  "is_monolithic ty \<longleftrightarrow> is_boolean ty \<or> is_enumerative ty"

fun is_algebraic :: "Type \<Rightarrow> bool" where
  "is_algebraic (SignedAlgebraicType w) = True"
| "is_algebraic (UnsignedAlgebraicType w) = True"
| "is_algebraic (SignedFixedAlgebraicType w f) = True"
| "is_algebraic (UnsignedFixedAlgebraicType w f) = True"
| "is_algebraic _ = False"

definition is_binary_logical :: "Expr \<Rightarrow> bool" where
  "is_binary_logical e \<longleftrightarrow>
     (case e of Binary op a b \<Rightarrow> op \<in> {AND, OR, XOR, XNOR, IFF, IMPLIES} | _ \<Rightarrow> False)"

definition is_binary_arithmetical :: "Expr \<Rightarrow> bool" where
  "is_binary_arithmetical e \<longleftrightarrow>
     (case e of Binary op a b \<Rightarrow> op \<in> {PLUS, SUB, DIV, MUL, MOD} | _ \<Rightarrow> False)"

definition is_binary_relational :: "Expr \<Rightarrow> bool" where
  "is_binary_relational e \<longleftrightarrow>
     (case e of Binary op a b \<Rightarrow> op \<in> {LT, LE, GT, GE, EQ, NE} | _ \<Rightarrow> False)"

text \<open>
  The classifiers of the compiler; \<open>types e\<close> is the type the owner gives to \<open>e\<close> in the
  current context.
\<close>

definition is_binary_boolean :: "(Expr \<Rightarrow> Type) \<Rightarrow> Expr \<Rightarrow> bool" where
  "is_binary_boolean types e \<longleftrightarrow>
     (case e of
        Binary op lhs rhs \<Rightarrow>
          is_binary_logical e \<and> is_boolean (types lhs) \<and> is_boolean (types rhs)
      | _ \<Rightarrow> False)"

definition is_binary_monolithic :: "(Expr \<Rightarrow> Type) \<Rightarrow> Expr \<Rightarrow> bool" where
  "is_binary_monolithic types e \<longleftrightarrow>
     (case e of
        Binary op lhs rhs \<Rightarrow>
          (is_binary_logical e \<or> is_binary_arithmetical e \<or> is_binary_relational e) \<and>
          is_monolithic (types lhs) \<and> is_monolithic (types rhs)
      | _ \<Rightarrow> False)"

definition is_binary_algebraic :: "(Expr \<Rightarrow> Type) \<Rightarrow> Expr \<Rightarrow> bool" where
  "is_binary_algebraic types e \<longleftrightarrow>
     (case e of
        Binary op lhs rhs \<Rightarrow>
          (is_binary_logical e \<or> is_binary_arithmetical e \<or> is_binary_relational e) \<and>
          is_algebraic (types lhs) \<and> is_algebraic (types rhs)
      | _ \<Rightarrow> False)"

text \<open>
  The hooks of this compiler work on the ADD stack alone, which is passed explicitly;
  its back is the last element. Taking the back of an empty stack is an error.
\<close>

definition pop_two :: "ADD list \<Rightarrow> error + ADD \<times> ADD \<times> ADD list" where
  "pop_two stack =
     (if length stack < 2 then Inl StackUnderflow
      else Inr (last (butlast stack), last stack, butlast (butlast stack)))"

text \<open>
  A local array of pointers, \<^verbatim>\<open>ADD* rhs[width]\<close>: one cell for every index below \<open>width\<close>,
  holding the address the pointer refers to, or \<open>None\<close> as long as the pointer has not
  been given a value. The declaration has no initialiser, so no cell has one. The
  objects the pointers refer to live in a store from addresses to ADDs.
\<close>

type_synonym pointers = "nat option list"

type_synonym add_store = "nat \<rightharpoonup> ADD"

definition new_pointers :: "nat \<Rightarrow> pointers" where
  "new_pointers width = replicate width None"

text \<open>
  \<^verbatim>\<open>*ps[i]\<close> as an lvalue: the address in cell \<open>i\<close>. Indexing past the end of the array
  and going through a pointer that has no value are undefined, the error
  \<open>InvalidPointer\<close>.
\<close>

definition target :: "pointers \<Rightarrow> nat \<Rightarrow> error + nat" where
  "target ps i =
     (if i < length ps then
        (case ps ! i of None \<Rightarrow> Inl InvalidPointer | Some a \<Rightarrow> Inr a)
      else Inl InvalidPointer)"

text \<open>
  The loop \<^verbatim>\<open>for (i = width; (i); -- i) { *rhs[i] = f_add_stack.back(); f_add_stack.pop_back(); }\<close>:
  the index runs from \<open>width\<close>, one past the end of the array, down to 1. The right-hand
  side is evaluated first and fails on an empty stack; the assignment then goes through
  \<^verbatim>\<open>rhs[i]\<close>. With width 0 the body is never entered.
\<close>

fun pop_digits :: "pointers \<Rightarrow> nat \<Rightarrow> add_store \<Rightarrow> ADD list \<Rightarrow> error + add_store \<times> ADD list" where
  "pop_digits ps 0 store stack = Inr (store, stack)"
| "pop_digits ps (Suc i) store stack =
     (if stack = [] then Inl StackUnderflow
      else
        (case target ps (Suc i) of
           Inl err \<Rightarrow> Inl err
         | Inr a \<Rightarrow> pop_digits ps i (store(a \<mapsto> last stack)) (butlast stack)))"

text \<open>
  \<^verbatim>\<open>*ps[i]\<close> as an rvalue: the ADD stored at the address in cell \<open>i\<close>.
\<close>

definition deref :: "pointers \<Rightarrow> nat \<Rightarrow> add_store \<Rightarrow> error + ADD" where
  "deref ps i store =
     (case target ps i of
        Inl err \<Rightarrow> Inl err
      | Inr a \<Rightarrow> (case store a of None \<Rightarrow> Inl InvalidPointer | Some x \<Rightarrow> Inr x))"

text \<open>
  The loop that pushes one digit-level operation per index, from \<open>width\<close> down to 1:
  \<^verbatim>\<open>ADD tmp = (*lhs[i]).f(*rhs[i]); f_add_stack.push_back(tmp);\<close>, where \<open>f\<close> is the operation
  the source applies.
\<close>

fun push_digits ::
  "(ADD \<Rightarrow> ADD \<Rightarrow> ADD) \<Rightarrow> pointers \<Rightarrow> pointers \<Rightarrow> nat \<Rightarrow> add_store \<Rightarrow> ADD list \<Rightarrow> error + ADD list" where
  "push_digits f lhs rhs 0 store stack = Inr stack"
| "push_digits f lhs rhs (Suc i) store stack =
     (case deref lhs (Suc i) store of
        Inl err \<Rightarrow> Inl err
      | Inr x \<Rightarrow>
          (case deref rhs (Suc i) store of
             Inl err \<Rightarrow> Inl err
           | Inr y \<Rightarrow> push_digits f lhs rhs i store (stack @ [f x y])))"

text \<open>
  \<^verbatim>\<open>BECompiler::walk_or_postorder\<close>; \<open>width\<close> is \<^verbatim>\<open>f_enc.width()\<close>. The algebraic branch
  declares the two pointer arrays, fills them from the stack and pushes the digit-level
  results; the operation the source writes there is \<^verbatim>\<open>BWTimes\<close>, under the comment
  \<^verbatim>\<open>x[i] & y[i]\<close>. The hook allocates no ADD object for the pointers to refer to.
\<close>

definition BECompiler_walk_or_postorder ::
  "(Expr \<Rightarrow> Type) \<Rightarrow> nat \<Rightarrow> Expr \<Rightarrow> ADD list \<Rightarrow> error + ADD list" where
  "BECompiler_walk_or_postorder types width e stack =
     (if is_binary_boolean types e then
        (case pop_two stack of
           Inl err \<Rightarrow> Inl err
         | Inr (lhs, rhs, stack') \<Rightarrow> Inr (stack' @ [Or lhs rhs]))
      else if is_binary_monolithic types e then
        (case pop_two stack of
           Inl err \<Rightarrow> Inl err
         | Inr (lhs, rhs, stack') \<Rightarrow> Inr (stack' @ [BWOr lhs rhs]))
      else if is_binary_algebraic types e then
        (let rhs = new_pointers width in
         case pop_digits rhs width Map.empty stack of
           Inl err \<Rightarrow> Inl err
         | Inr (store1, stack1) \<Rightarrow>
             (let lhs = new_pointers width in
              case pop_digits lhs width store1 stack1 of
                Inl err \<Rightarrow> Inl err
              | Inr (store2, stack2) \<Rightarrow> push_digits BWTimes lhs rhs width store2 stack2))
      else Inr stack)"

section \<open>The backward reachability strategy (bmc/backward.cc)\<close>

datatype status_t = STATUS_SAT | STATUS_UNSAT | STATUS_UNKNOWN

datatype reachability_status_t =
    REACHABILITY_REACHABLE
  | REACHABILITY_UNREACHABLE
  | REACHABILITY_UNKNOWN
  | REACHABILITY_ERROR

text \<open>
  The strategy drives a SAT engine of its own. The model records every call it makes
  on the engine and on the managers as an event, in order. A group is the number the
  engine issued for it; the solver is a script of answers, one for each call of
  \<^verbatim>\<open>solve\<close>. The shared status is a field of the state: the runs described here are those
  of one strategy, and a peer shows only through the status the run starts with.
\<close>

datatype event =
    AssertFormula step_t CompilationUnit
  | AssertFsmInit step_t nat
  | AssertFsmTrans step_t
  | AssertFsmInvar step_t
  | AssertFsmUniqueness step_t step_t
  | NewGroup nat
  | InvertLastGroup
  | Solve status_t
  | SetStatus reachability_status_t
  | ExtractWitness step_t bool
  | Interrupt

record Reachability =
  f_status :: reachability_status_t
  f_target_cu :: CompilationUnit
  f_positive_time_constraints :: "CompilationUnit list"
  f_negative_time_constraints :: "CompilationUnit list"
  f_globally_time_constraints :: "CompilationUnit list"
  f_groups :: nat
  f_events :: "event list"

definition record_calls :: "event list \<Rightarrow> Reachability \<Rightarrow> Reachability" where
  "record_calls es s = s\<lparr>f_events := f_events s @ es\<rparr>"

definition sync_status :: "Reachability \<Rightarrow> reachability_status_t" where
  "sync_status s = f_status s"

text \<open>
  Modelled from the spec: \<^verbatim>\<open>sync_set_status\<close>, declared outside the sources. It sets the
  status only if the current one is unknown and returns whether this strategy won.
\<close>

definition sync_set_status :: "reachability_status_t \<Rightarrow> Reachability \<Rightarrow> bool \<times> Reachability" where
  "sync_set_status st s =
     (if f_status s = REACHABILITY_UNKNOWN
      then (True, record_calls [SetStatus st] (s\<lparr>f_status := st\<rparr>))
      else (False, s))"

text \<open>The steps \<open>j = 0, ..., k - 1\<close> of the loop \<^verbatim>\<open>for (step_t j = 0; j < k; ++ j)\<close>.\<close>

definition steps_below :: "step_t \<Rightarrow> step_t list" where
  "steps_below k = map of_nat [0..<unat k]"

text \<open>
  The \<^verbatim>\<open>do ... while\<close> loop. An iteration consumes one answer of the solver for the
  witness check and, after an UNSAT, one more for the unreachability proof. When the
  script of answers runs out the loop has not returned: \<open>OutOfFuel\<close>.
\<close>

function backward_loop :: "step_t \<Rightarrow> status_t list \<Rightarrow> Reachability \<Rightarrow> error + Reachability" where
  "backward_loop k answers s =
     (let g = Suc (f_groups s);
          s1 = record_calls [NewGroup g, AssertFsmInit (UINT_MAX - k) g] (s\<lparr>f_groups := g\<rparr>)
      in case answers of
           [] \<Rightarrow> Inl OutOfFuel
         | status # answers1 \<Rightarrow>
             (let s2 = record_calls [Solve status] s1
              in if status = STATUS_UNKNOWN then Inr s2
                 else if status = STATUS_SAT then
                   (case sync_set_status REACHABILITY_REACHABLE s2 of
                      (True, s3) \<Rightarrow> Inr (record_calls [ExtractWitness k True] s3)
                    | (False, s3) \<Rightarrow>
                        if sync_status s3 = REACHABILITY_UNKNOWN
                        then backward_loop k answers1 s3
                        else Inr s3)
                 else
                   (let k' = k + 1;
                        s3 = record_calls ([InvertLastGroup,
                                   AssertFsmTrans (UINT_MAX - k'),
                                   AssertFsmInvar (UINT_MAX - k')]
                                  @ map (AssertFormula (UINT_MAX - k'))
                                      (f_globally_time_constraints s2)
                                  @ map (\<lambda>j. AssertFsmUniqueness (UINT_MAX - j) (UINT_MAX - k'))
                                      (steps_below k')) s2
                    in if sync_status s3 \<noteq> REACHABILITY_UNKNOWN then Inr s3
                       else case answers1 of
                              [] \<Rightarrow> Inl OutOfFuel
                            | status2 # answers2 \<Rightarrow>
                                (let s4 = record_calls [Solve status2] s3
                                 in if status2 = STATUS_UNKNOWN then Inr s4
                                    else if status2 = STATUS_UNSAT then
                                      Inr (snd (sync_set_status REACHABILITY_UNREACHABLE s4))
                                    else if sync_status s4 = REACHABILITY_UNKNOWN
                                    then backward_loop k' answers2 s4
                                    else Inr s4))))"
  by pat_completeness auto
termination
  by (relation "measure (\<lambda>(k, answers, s). length answers)") auto

declare backward_loop.simps [simp del]

text \<open>\<^verbatim>\<open>Reachability::backward_strategy\<close>; every path ends in \<^verbatim>\<open>cleanup\<close>, which interrupts.\<close>

definition cleanup :: "Reachability \<Rightarrow> Reachability" where
  "cleanup s = record_calls [Interrupt] s"

definition backward_strategy :: "status_t list \<Rightarrow> Reachability \<Rightarrow> error + Reachability" where
  "backward_strategy answers s =
     (if f_positive_time_constraints s \<noteq> [] then Inl AssertionFailed
      else
        (let s1 = record_calls ([AssertFormula UINT_MAX (f_target_cu s), AssertFsmInvar UINT_MAX]
                       @ map (AssertFormula UINT_MAX) (f_negative_time_constraints s)
                       @ map (AssertFormula UINT_MAX) (f_globally_time_constraints s)) s
         in case answers of
              [] \<Rightarrow> Inl OutOfFuel
            | status # answers1 \<Rightarrow>
                (let s2 = record_calls [Solve status] s1
                 in if status = STATUS_UNKNOWN then Inr (cleanup s2)
                    else if status = STATUS_UNSAT then
                      Inr (cleanup (snd (sync_set_status REACHABILITY_UNREACHABLE s2)))
                    else
                      (case backward_loop 0 answers1 s2 of
                         Inl e \<Rightarrow> Inl e
                       | Inr s3 \<Rightarrow> Inr (cleanup s3)))))"

text \<open>
  The events of one iteration that finds no witness and no proof, in the words of the
  specification: the witness check asserts INIT at \<open>UINT_MAX - k\<close> inside the fresh group
  \<open>g\<close> and solves; on UNSAT the last group is inverted, \<open>k\<close> is incremented, TRANS and
  INVAR (and the global constraints) are asserted at \<open>UINT_MAX - k\<close>, state uniqueness
  is asserted for every pair \<open>(UINT_MAX - j, UINT_MAX - k)\<close> with \<open>j < k\<close>, and the
  unreachability proof is attempted.
\<close>

definition spec_iteration :: "CompilationUnit list \<Rightarrow> nat \<Rightarrow> nat \<Rightarrow> event list" where
  "spec_iteration globals g k =
     [NewGroup g, AssertFsmInit (UINT_MAX - of_nat k) g, Solve STATUS_UNSAT,
      InvertLastGroup,
      AssertFsmTrans (UINT_MAX - of_nat (Suc k)), AssertFsmInvar (UINT_MAX - of_nat (Suc k))]
     @ map (AssertFormula (UINT_MAX - of_nat (Suc k))) globals
     @ map (\<lambda>j. AssertFsmUniqueness (UINT_MAX - of_nat j) (UINT_MAX - of_nat (Suc k))) [0..<Suc k]
     @ [Solve STATUS_SAT]"

definition spec_initial :: "Reachability \<Rightarrow> event list" where
  "spec_initial s =
     [AssertFormula UINT_MAX (f_target_cu s), AssertFsmInvar UINT_MAX]
     @ map (AssertFormula UINT_MAX) (f_negative_time_constraints s)
     @ map (AssertFormula UINT_MAX) (f_globally_time_constraints s)"

chapter \<open>Properties\<close>

section \<open>Encodings\<close>

subsection \<open>Algebraic encodings evaluate their digits most significant first\<close>

text \<open>Wrapping is reduction modulo \<open>2 ^ 64\<close>, and the identity on the range of \<^verbatim>\<open>value_t\<close>.\<close>

lemma wrap_value_mod: "wrap_value x mod 2 ^ 64 = x mod 2 ^ 64"
proof -
  have "((x + 2 ^ 63) mod 2 ^ 64 - 2 ^ 63) mod 2 ^ 64 = (x + 2 ^ 63 - 2 ^ 63) mod (2 ^ 64 :: int)"
    by (rule mod_diff_left_eq)
  then show ?thesis by (simp add: wrap_value_def)
qed

lemma wrap_value_cong: "x mod 2 ^ 64 = y mod 2 ^ 64 \<Longrightarrow> wrap_value x = wrap_value y"
proof -
  assume "x mod 2 ^ 64 = y mod (2 ^ 64 :: int)"
  then have "(x + 2 ^ 63) mod 2 ^ 64 = (y + 2 ^ 63) mod (2 ^ 64 :: int)"
    by (metis mod_add_left_eq)
  then show ?thesis by (simp add: wrap_value_def)
qed

lemma mod_linear_cong:
  "a mod m = b mod m \<Longrightarrow> (a * c + s) mod m = (b * c + s) mod (m :: int)"
  by (metis mod_add_left_eq mod_mult_left_eq)

lemma wrap_value_linear: "wrap_value (wrap_value a * c + s) = wrap_value (a * c + s)"
  by (intro wrap_value_cong mod_linear_cong wrap_value_mod)

lemma wrap_value_in_range: "- (2 ^ 63) \<le> x \<Longrightarrow> x < 2 ^ 63 \<Longrightarrow> wrap_value x = x"
  by (simp add: wrap_value_def)

lemma expr_loop_horner:
  "i < width \<Longrightarrow> width = length dv \<Longrightarrow>
   expr_loop dv width A i res =
     Inr (wrap_value (res * 16 ^ (width - 1 - i)
            + (\<Sum>j = i..<width. Eval (dv ! j) A * 16 ^ (width - 1 - j))))"
proof (induction dv width A i res rule: expr_loop.induct)
  case (1 dv width A i res)
  let ?d = "Eval (dv ! i) A"
  show ?case
  proof (cases "Suc i < width")
    case True
    let ?S = "\<Sum>j = Suc i..<width. Eval (dv ! j) A * 16 ^ (width - 1 - j)"
    have e: "width - 1 - i = Suc (width - 1 - Suc i)" using True by simp
    have "expr_loop dv width A i res =
        expr_loop dv width A (Suc i) (wrap_value (wrap_value (res + ?d) * 16))"
      using 1(2,3) True by (subst expr_loop.simps) simp
    also have "\<dots> = Inr (wrap_value (wrap_value (wrap_value (res + ?d) * 16)
        * 16 ^ (width - 1 - Suc i) + ?S))"
      using 1(1)[OF _ refl True True] 1(2,3) by simp
    also have "wrap_value (wrap_value (wrap_value (res + ?d) * 16) * 16 ^ (width - 1 - Suc i) + ?S)
        = wrap_value (wrap_value (res + ?d) * 16 * 16 ^ (width - 1 - Suc i) + ?S)"
      by (rule wrap_value_linear)
    also have "wrap_value (res + ?d) * 16 * 16 ^ (width - 1 - Suc i)
        = wrap_value (res + ?d) * 16 ^ (width - 1 - i)"
      by (simp only: e power_Suc mult.assoc)
    also have "wrap_value (wrap_value (res + ?d) * 16 ^ (width - 1 - i) + ?S)
        = wrap_value ((res + ?d) * 16 ^ (width - 1 - i) + ?S)"
      by (rule wrap_value_linear)
    also have "(res + ?d) * 16 ^ (width - 1 - i) + ?S
        = res * 16 ^ (width - 1 - i)
          + (\<Sum>j = i..<width. Eval (dv ! j) A * 16 ^ (width - 1 - j))"
      using 1(2) by (simp add: sum.atLeast_Suc_lessThan algebra_simps)
    finally show ?thesis .
  next
    case False
    then have w: "width = Suc i" using 1(2) by simp
    then have l: "length dv = Suc i" using 1(3) by simp
    show ?thesis unfolding w by (subst expr_loop.simps) (simp add: l)
  qed
qed

lemma temporary_loop_length:
  "temporary_loop i width dds dv = Inr dv' \<Longrightarrow> length dv' = length dv + (width - i)"
proof (induction i width dds dv rule: temporary_loop.induct)
  case (1 i width dds dv)
  show ?case
  proof (cases "i < width")
    case True
    with 1(2) have l: "i < length dds"
      and r: "temporary_loop (Suc i) width dds (dv @ [dds ! i]) = Inr dv'"
      by (subst (asm) temporary_loop.simps, simp split: if_splits)+
    from 1(1)[OF True l r] True show ?thesis by simp
  next
    case False
    with 1(2) show ?thesis by (subst (asm) temporary_loop.simps) simp
  qed
qed

lemma digits_loop_length:
  "digits_loop i width nxt bits dv = Inr (nxt', bits', dv') \<Longrightarrow> length dv' = length dv + (width - i)"
proof (induction i width nxt bits dv rule: digits_loop.induct)
  case (1 i width nxt bits dv)
  show ?case
  proof (cases "i < width")
    case True
    with 1(2) obtain d n b where m: "make_monolithic_encoding NIBBLE_SIZE nxt bits = Inr (d, n, b)"
      and r: "digits_loop (Suc i) width n b (dv @ [d]) = Inr (nxt', bits', dv')"
      by (subst (asm) digits_loop.simps) (auto split: sum.splits)
    from 1(1)[OF True m refl refl r] True show ?thesis by simp
  next
    case False
    with 1(2) show ?thesis by (subst (asm) digits_loop.simps) simp
  qed
qed

lemma new_AlgebraicEncoding_wf:
  "new_AlgebraicEncoding width fract is_signed dds nxt = Inr (enc, nxt') \<Longrightarrow>
   f_width enc = width \<and> length (f_dv enc) = width"
  by (auto simp: new_AlgebraicEncoding_def split: option.splits sum.splits
      dest: temporary_loop_length digits_loop_length)

text \<open>
  Claim C6, as the code has it. For an algebraic encoding of width \<open>W > 0\<close> built by the
  constructor and every assignment \<open>A\<close>, \<open>expr(A)\<close> is the numeric literal of the sum
  \<open>\<Sum>i<W. d\<^sub>i * 16 ^ (W - 1 - i)\<close> wrapped into the 64 bits of \<^verbatim>\<open>value_t\<close>, where \<open>d\<^sub>i\<close> is the
  constant digit \<open>i\<close> of the DDVector evaluates to under \<open>A\<close>; it is the literal of the
  sum itself whenever the sum lies between \<open>- 2 ^ 63\<close> and \<open>2 ^ 63 - 1\<close>. The loop is
  Horner's rule from digit 0, so digit 0 is the most significant digit.
\<close>

theorem AlgebraicEncoding_expr_big_endian:
  assumes "new_AlgebraicEncoding width fract is_signed dds nxt = Inr (enc, nxt')"
    and "0 < width"
  shows "AlgebraicEncoding_expr enc A =
      Inr (Numeric (wrap_value (\<Sum>i<width. Eval (f_dv enc ! i) A * 16 ^ (width - 1 - i)))) \<and>
    (- (2 ^ 63) \<le> (\<Sum>i<width. Eval (f_dv enc ! i) A * 16 ^ (width - 1 - i)) \<and>
     (\<Sum>i<width. Eval (f_dv enc ! i) A * 16 ^ (width - 1 - i)) < 2 ^ 63 \<longrightarrow>
       AlgebraicEncoding_expr enc A =
         Inr (Numeric (\<Sum>i<width. Eval (f_dv enc ! i) A * 16 ^ (width - 1 - i))))"
proof -
  from assms(1) have wf: "f_width enc = width" "length (f_dv enc) = width"
    using new_AlgebraicEncoding_wf by blast+
  have "expr_loop (f_dv enc) width A 0 0 =
      Inr (wrap_value (0 * 16 ^ (width - 1 - 0)
             + (\<Sum>j = 0..<width. Eval (f_dv enc ! j) A * 16 ^ (width - 1 - j))))"
    using assms(2) wf(2) by (intro expr_loop_horner) simp_all
  then have g: "AlgebraicEncoding_expr enc A =
      Inr (Numeric (wrap_value (\<Sum>i<width. Eval (f_dv enc ! i) A * 16 ^ (width - 1 - i))))"
    by (simp add: AlgebraicEncoding_expr_def wf(1) atLeast0LessThan)
  show ?thesis
    using g wrap_value_in_range by auto
qed

lemma two_digit_temporary:
  "new_AlgebraicEncoding 2 0 False (Some [Constant 1, Constant 2]) 0 =
     Inr (\<lparr>f_bits = [], f_dv = [Constant 1, Constant 2], f_width = 2, f_fract = 0,
           f_signed = False, f_temporary = True\<rparr>, 0)"
  by (simp add: new_AlgebraicEncoding_def temporary_loop.simps)

theorem AlgebraicEncoding_expr_big_endian_witness:
  "- (2 ^ 63) \<le> (18 :: int) \<and> (18 :: int) < 2 ^ 63 \<and>
   AlgebraicEncoding_expr
     \<lparr>f_bits = [], f_dv = [Constant 1, Constant 2], f_width = 2, f_fract = 0,
      f_signed = False, f_temporary = True\<rparr> (\<lambda>i. False) = Inr (Numeric 18)"
  using AlgebraicEncoding_expr_big_endian [OF two_digit_temporary, of "\<lambda>i. False"]
  by (simp add: lessThan_Suc eval_nat_numeral wrap_value_def)

text \<open>
  Seventeen digits, the first of them 1 and the others 0: the sum is \<open>16 ^ 16 = 2 ^ 64\<close>,
  and \<open>expr\<close> returns 0.
\<close>

lemma AlgebraicEncoding_expr_wraps:
  "AlgebraicEncoding_expr
     \<lparr>f_bits = [], f_dv = Constant 1 # replicate 16 (Constant 0), f_width = 17,
      f_fract = 0, f_signed = False, f_temporary = True\<rparr> A = Inr (Numeric 0)"
proof -
  let ?dv = "Constant 1 # replicate 16 (Constant 0)"
  have z: "(\<Sum>j = Suc 0..<17. Eval (replicate 16 (Constant 0) ! (j - Suc 0)) A * 16 ^ (16 - j)) = (0 :: int)"
    by (rule sum.neutral) auto
  have "(\<Sum>j = 0..<17. Eval (?dv ! j) A * 16 ^ (17 - 1 - j)) = 16 ^ 16"
    by (subst sum.atLeast_Suc_lessThan) (simp_all add: z)
  moreover have "expr_loop ?dv 17 A 0 0 =
      Inr (wrap_value (0 * 16 ^ (17 - 1 - 0)
             + (\<Sum>j = 0..<17. Eval (?dv ! j) A * 16 ^ (17 - 1 - j))))"
    by (rule expr_loop_horner) simp_all
  ultimately have "expr_loop ?dv 17 A 0 0 = Inr (wrap_value (16 ^ 16))"
    by simp
  then show ?thesis
    by (simp add: AlgebraicEncoding_expr_def wrap_value_def)
qed

text \<open>
  The reading of C6 with digit 0 least significant fails on an ordinary encoding of width 2:
  under the assignment that sets only bit 3 (the low bit of digit 0), digit 0 evaluates
  to 1 and digit 1 to 0; \<open>expr\<close> returns 16, the little-endian sum is 1.
\<close>

lemma nibble_encoding:
  "make_monolithic_encoding NIBBLE_SIZE b bits =
     Inr (Plus (Times (Plus (Times (Plus (Times (Bit b) (Constant 2)) (Bit (Suc b))) (Constant 2))
                 (Bit (Suc (Suc b)))) (Constant 2)) (Bit (Suc (Suc (Suc b)))),
          Suc (Suc (Suc (Suc b))),
          bits @ [Bit b, Bit (Suc b), Bit (Suc (Suc b)), Bit (Suc (Suc (Suc b)))])"
  by (simp add: make_monolithic_encoding_def NIBBLE_SIZE_def monolithic_loop.simps make_bit_def)

theorem AlgebraicEncoding_expr_little_endian_counterexample:
  "\<not> isl (new_AlgebraicEncoding 2 0 False None 0) \<and>
   AlgebraicEncoding_expr (fst (projr (new_AlgebraicEncoding 2 0 False None 0))) (\<lambda>i. i = 3)
     = Inr (Numeric 16) \<and>
   AlgebraicEncoding_expr (fst (projr (new_AlgebraicEncoding 2 0 False None 0))) (\<lambda>i. i = 3)
     \<noteq> Inr (Numeric (\<Sum>i<2. Eval (f_dv (fst (projr (new_AlgebraicEncoding 2 0 False None 0))) ! i)
                               (\<lambda>i. i = 3) * 16 ^ i))"
  by (simp add: new_AlgebraicEncoding_def digits_loop.simps nibble_encoding
      AlgebraicEncoding_expr_def expr_loop.simps lessThan_Suc eval_nat_numeral wrap_value_def)

subsection \<open>Enum encodings\<close>

lemma range_repr_loop_floorlog: "range_repr_loop res n = res + floorlog 2 n"
proof (induction res n rule: range_repr_loop.induct)
  case (1 res rng)
  show ?case
  proof (cases "rng = 0")
    case True
    then show ?thesis by (subst range_repr_loop.simps) (simp add: floorlog_def)
  next
    case False
    then have "range_repr_loop res rng = range_repr_loop (Suc res) (rng div 2)"
      by (subst range_repr_loop.simps) simp
    also have "\<dots> = Suc res + floorlog 2 (rng div 2)" using 1[OF False] .
    also have "\<dots> = res + floorlog 2 rng"
      using False by (subst (2) compute_floorlog) simp
    finally show ?thesis .
  qed
qed

lemma monolithic_loop_bits:
  "monolithic_loop i nbits res nxt bits = (res', nxt', bits') \<Longrightarrow>
   length bits' = length bits + (nbits - i) \<and> nxt' = nxt + (nbits - i)"
proof (induction i nbits res nxt bits rule: monolithic_loop.induct)
  case (1 i nbits res nxt bits)
  show ?case
  proof (cases "i < nbits")
    case True
    with 1(2) have r: "monolithic_loop (Suc i) nbits (Plus (Times res (Constant 2)) (Bit nxt))
        (Suc nxt) (bits @ [Bit nxt]) = (res', nxt', bits')"
      by (subst (asm) monolithic_loop.simps) (simp add: make_bit_def)
    from 1(1)[of "Bit nxt" "(Suc nxt, bits @ [Bit nxt])" "Suc nxt" "bits @ [Bit nxt]"] True r
    have "length bits' = length (bits @ [Bit nxt]) + (nbits - Suc i) \<and> nxt' = Suc nxt + (nbits - Suc i)"
      by (simp add: make_bit_def)
    with True show ?thesis by auto
  next
    case False
    with 1(2) show ?thesis by (subst (asm) monolithic_loop.simps) simp
  qed
qed

lemma make_monolithic_encoding_bits:
  "make_monolithic_encoding nbits nxt bits = Inr (d, nxt', bits') \<Longrightarrow>
   length bits' = length bits + nbits \<and> nxt' = nxt + nbits"
  by (auto simp: make_monolithic_encoding_def make_bit_def split: if_splits
      dest!: monolithic_loop_bits)

lemma enum_loop_maps:
  "enum_loop v lits v2e e2v = (v2e', e2v') \<Longrightarrow> distinct lits \<Longrightarrow>
   (\<forall>i<length lits. v2e' (v + int i) = Some (lits ! i) \<and> e2v' (lits ! i) = Some (v + int i)) \<and>
   (\<forall>x. \<not> (v \<le> x \<and> x < v + int (length lits)) \<longrightarrow> v2e' x = v2e x) \<and>
   (\<forall>e. e \<notin> set lits \<longrightarrow> e2v' e = e2v e)"
proof (induction v lits v2e e2v rule: enum_loop.induct)
  case (1 v v2e e2v)
  then show ?case by simp
next
  case (2 v eye lits v2e e2v)
  from 2(2) have r: "enum_loop (v + 1) lits (v2e(v \<mapsto> eye)) (e2v(eye \<mapsto> v)) = (v2e', e2v')"
    by simp
  from 2(3) have d: "distinct lits" and n: "eye \<notin> set lits" by simp_all
  note ih = 2(1)[OF r d]
  show ?case
  proof (intro conjI allI impI)
    fix i assume "i < length (eye # lits)"
    show "v2e' (v + int i) = Some ((eye # lits) ! i)"
    proof (cases i)
      case 0
      then show ?thesis using ih by simp
    next
      case (Suc j)
      then show ?thesis using ih \<open>i < length (eye # lits)\<close> by (simp add: add.assoc)
    qed
    show "e2v' ((eye # lits) ! i) = Some (v + int i)"
    proof (cases i)
      case 0
      then show ?thesis using ih n by simp
    next
      case (Suc j)
      then show ?thesis using ih \<open>i < length (eye # lits)\<close> by (simp add: add.assoc)
    qed
  next
    fix x assume "\<not> (v \<le> x \<and> x < v + int (length (eye # lits)))"
    then show "v2e' x = v2e x" using ih by auto
  next
    fix e assume "e \<notin> set (eye # lits)"
    then show "e2v' e = e2v e" using ih by auto
  qed
qed

text \<open>
  Claim C7, as the code has it. For a non-empty literal set of size \<open>n\<close>, given by its
  iteration order \<open>lits\<close>, the constructor of the enum encoding succeeds, allocates
  \<open>range_repr_bits n = floorlog 2 n\<close> bits, that is \<open>\<lfloor>log\<^sub>2 n\<rfloor> + 1\<close>, the bit length of \<open>n\<close>, by
  one call of \<open>make_monolithic_encoding\<close>, and fills two maps that are mutual inverses
  over the values \<open>0..n-1\<close>: value \<open>i\<close> maps to the \<open>i\<close>-th literal and back, and the maps
  have no other entries.
\<close>

theorem EnumEncoding_maps:
  assumes "distinct lits" and "lits \<noteq> []"
  shows "\<exists>enc. new_EnumEncoding lits nxt = Inr (enc, nxt + floorlog 2 (length lits)) \<and>
      length (f_bits enc) = floorlog 2 (length lits) \<and>
      (\<forall>i<length lits. f_v2e_map enc (int i) = Some (lits ! i) \<and>
                         f_e2v_map enc (lits ! i) = Some (int i)) \<and>
      dom (f_v2e_map enc) = int ` {..<length lits} \<and>
      dom (f_e2v_map enc) = set lits"
proof -
  from assms(2) have n: "0 < length lits" by simp
  then have rb: "range_repr_bits (length lits) = Inr (floorlog 2 (length lits))"
    by (simp add: range_repr_bits_def range_repr_loop_floorlog)
  have pos: "0 < floorlog 2 (length lits)"
    using n by (simp add: floorlog_def)
  obtain d nxt' bits where
    mm: "make_monolithic_encoding (floorlog 2 (length lits)) nxt [] = Inr (d, nxt', bits)"
    using pos by (cases "monolithic_loop 1 (floorlog 2 (length lits)) (Bit nxt) (Suc nxt) [Bit nxt]")
      (auto simp: make_monolithic_encoding_def make_bit_def)
  from make_monolithic_encoding_bits[OF mm]
  have lb: "length bits = floorlog 2 (length lits)" and nx: "nxt' = nxt + floorlog 2 (length lits)"
    by simp_all
  obtain v2e e2v where el: "enum_loop 0 lits Map.empty Map.empty = (v2e, e2v)"
    by (cases "enum_loop 0 lits Map.empty Map.empty")
  note m = enum_loop_maps[OF el assms(1)]
  let ?enc = "\<lparr>f_bits = bits, f_dv = [], f_v2e_map = v2e, f_e2v_map = e2v\<rparr>"
  have c: "new_EnumEncoding lits nxt = Inr (?enc, nxt + floorlog 2 (length lits))"
    by (simp add: new_EnumEncoding_def rb mm el nx)
  have d1: "dom v2e = int ` {..<length lits}"
  proof (rule set_eqI)
    fix x
    show "x \<in> dom v2e \<longleftrightarrow> x \<in> int ` {..<length lits}"
    proof (cases "0 \<le> x \<and> x < int (length lits)")
      case True
      then have "nat x < length lits" and "x = int (nat x)" by linarith+
      then have "v2e x = Some (lits ! nat x)" and "x \<in> int ` {..<length lits}"
        using m by (metis add_0, blast)
      then show ?thesis by auto
    next
      case False
      then have "v2e x = None" using m by simp
      moreover have "x \<notin> int ` {..<length lits}" using False by auto
      ultimately show ?thesis by auto
    qed
  qed
  have d2: "dom e2v = set lits"
  proof (rule set_eqI)
    fix e
    show "e \<in> dom e2v \<longleftrightarrow> e \<in> set lits"
    proof (cases "e \<in> set lits")
      case True
      then obtain i where "i < length lits" "lits ! i = e" by (auto simp: in_set_conv_nth)
      then have "e2v e = Some (int i)" using m by auto
      then show ?thesis using True by auto
    next
      case False
      then have "e2v e = None" using m by simp
      then show ?thesis using False by auto
    qed
  qed
  show ?thesis
    using c lb m d1 d2 by (intro exI[of _ ?enc]) simp
qed

lemma floorlog_3: "floorlog 2 (Suc (Suc (Suc 0))) = 2"
  by (simp add: compute_floorlog)

theorem EnumEncoding_maps_witness:
  "distinct [Identifier ''A'', Identifier ''B'', Identifier ''C''] \<and>
   (\<exists>enc. new_EnumEncoding [Identifier ''A'', Identifier ''B'', Identifier ''C''] 0 = Inr (enc, 2) \<and>
      length (f_bits enc) = 2 \<and>
      f_v2e_map enc 1 = Some (Identifier ''B'') \<and>
      f_e2v_map enc (Identifier ''C'') = Some 2)"
proof -
  have d: "distinct [Identifier ''A'', Identifier ''B'', Identifier ''C'']" by simp
  have n: "[Identifier ''A'', Identifier ''B'', Identifier ''C''] \<noteq> []" by simp
  from EnumEncoding_maps [OF d n, of 0] obtain enc where
    c: "new_EnumEncoding [Identifier ''A'', Identifier ''B'', Identifier ''C''] 0 = Inr (enc, 2)"
    and b: "length (f_bits enc) = 2"
    and m: "\<forall>i<3. f_v2e_map enc (int i) = Some ([Identifier ''A'', Identifier ''B'', Identifier ''C''] ! i) \<and>
                 f_e2v_map enc ([Identifier ''A'', Identifier ''B'', Identifier ''C''] ! i) = Some (int i)"
    by (auto simp: floorlog_3)
  from m[rule_format, of 1] m[rule_format, of 2] have
    "f_v2e_map enc 1 = Some (Identifier ''B'')" "f_e2v_map enc (Identifier ''C'') = Some 2"
    by simp_all
  with d c b show ?thesis by blast
qed

text \<open>
  The bit count of C7, \<open>\<lceil>log\<^sub>2 n\<rceil>\<close>, fails when \<open>n\<close> is a power of two: four literals get
  three bits, and \<open>\<lceil>log\<^sub>2 4\<rceil> = 2\<close>.
\<close>

theorem EnumEncoding_bits_counterexample:
  "\<not> isl (new_EnumEncoding [Identifier ''A'', Identifier ''B'', Identifier ''C'', Identifier ''D''] 0) \<and>
   length (f_bits (fst (projr
     (new_EnumEncoding [Identifier ''A'', Identifier ''B'', Identifier ''C'', Identifier ''D''] 0)))) = 3 \<and>
   ceillog2 (length [Identifier ''A'', Identifier ''B'', Identifier ''C'', Identifier ''D'']) = 2"
proof -
  have "ceillog2 (2 ^ 2) = 2" by (rule ceillog2_2_power)
  moreover have "length [Identifier ''A'', Identifier ''B'', Identifier ''C'', Identifier ''D''] = 2 ^ 2"
    by simp
  ultimately have c: "ceillog2 (length [Identifier ''A'', Identifier ''B'', Identifier ''C'', Identifier ''D'']) = 2"
    by (simp only:)
  have "range_repr_bits (Suc (Suc (Suc (Suc 0)))) = Inr 3"
    by (simp add: range_repr_bits_def range_repr_loop.simps)
  then have "\<not> isl (new_EnumEncoding [Identifier ''A'', Identifier ''B'', Identifier ''C'', Identifier ''D''] 0) \<and>
   length (f_bits (fst (projr
     (new_EnumEncoding [Identifier ''A'', Identifier ''B'', Identifier ''C'', Identifier ''D''] 0)))) = 3"
    by (simp add: new_EnumEncoding_def make_monolithic_encoding_def monolithic_loop.simps
        make_bit_def)
  with c show ?thesis by blast
qed

subsection \<open>Array encodings\<close>

lemma array_loop_concat: "array_loop es dv = dv @ concat (map f_dv es)"
  by (induction es arbitrary: dv) simp_all

text \<open>
  Claim C10. \<open>expr\<close> of an array encoding fails for every encoding and every assignment
  (it asserts false), also for the encoding the constructor builds from a non-empty
  vector of elements, whose DDVector is the concatenation of the elements' DDVectors,
  element 0 first.
\<close>

theorem ArrayEncoding_expr_fails:
  "ArrayEncoding_expr enc A = Inl AssertionFailed \<and>
   (elements \<noteq> [] \<longrightarrow>
      (\<exists>enc'. new_ArrayEncoding elements = Inr enc' \<and>
         f_dv enc' = concat (map f_dv elements) \<and>
         ArrayEncoding_expr enc' A = Inl AssertionFailed))"
  by (simp add: ArrayEncoding_expr_def new_ArrayEncoding_def array_loop_concat)

theorem ArrayEncoding_expr_fails_witness:
  "[\<lparr>f_bits = [], f_dv = [Bit 0, Bit 1]\<rparr>, \<lparr>f_bits = [], f_dv = [Bit 2, Bit 3]\<rparr>] \<noteq> [] \<and>
   (\<exists>enc'. new_ArrayEncoding [\<lparr>f_bits = [], f_dv = [Bit 0, Bit 1]\<rparr>,
                               \<lparr>f_bits = [], f_dv = [Bit 2, Bit 3]\<rparr>] = Inr enc' \<and>
      f_dv enc' = [Bit 0, Bit 1, Bit 2, Bit 3] \<and>
      ArrayEncoding_expr enc' (\<lambda>i. False) = Inl AssertionFailed)"
  using ArrayEncoding_expr_fails [of undefined "\<lambda>i. False"
      "[\<lparr>f_bits = [], f_dv = [Bit 0, Bit 1]\<rparr>, \<lparr>f_bits = [], f_dv = [Bit 2, Bit 3]\<rparr>]"]
  by simp

section \<open>The witness store\<close>

lemma set_value_preserves: "f k = Some v \<Longrightarrow> set_value k' v' f k = Some v"
  by (auto simp: set_value_def)

lemma set_values_preserves: "f k = Some v \<Longrightarrow> set_values ops f k = Some v"
  by (induction ops arbitrary: f) (auto simp: set_value_preserves)

lemma set_value_binds: "\<exists>u. set_value key v f key = Some u"
  by (auto simp: set_value_def)

text \<open>
  Claim C9. Once \<open>set_value key v\<close> has been performed on a frame, \<open>has_value key\<close> holds
  after every later run of operations \<open>ops\<close>, and \<open>value key\<close> keeps returning what it
  returned right after that call: no later operation removes or overwrites the binding,
  a later \<open>set_value key v'\<close> included. When \<open>key\<close> had no value before the call, the
  value returned is \<open>v\<close>. \<open>value key\<close> fails (its assertion) exactly when \<open>has_value key\<close> is
  false.
\<close>

theorem TimeFrame_append_only:
  "has_value (set_values ops (set_value key v f)) key \<and>
   (\<not> has_value f key \<longrightarrow> value (set_values ops (set_value key v f)) key = Inr v) \<and>
   (value (set_values ops (set_value key v f)) key = value (set_value key v f) key) \<and>
   ((value f key = Inl AssertionFailed) = (\<not> has_value f key))"
proof (intro conjI impI)
  obtain u where u: "set_value key v f key = Some u"
    using set_value_binds by blast
  then have s: "set_values ops (set_value key v f) key = Some u"
    by (rule set_values_preserves)
  show "has_value (set_values ops (set_value key v f)) key"
    by (simp add: has_value_def s)
  show "value (set_values ops (set_value key v f)) key = value (set_value key v f) key"
    by (simp add: value_def s u)
  show "(value f key = Inl AssertionFailed) = (\<not> has_value f key)"
    by (simp add: value_def has_value_def split: option.splits)
  assume "\<not> has_value f key"
  then have "set_value key v f key = Some v"
    by (simp add: has_value_def set_value_def)
  then have "set_values ops (set_value key v f) key = Some v"
    by (rule set_values_preserves)
  then show "value (set_values ops (set_value key v f)) key = Inr v"
    by (simp add: value_def)
qed

theorem TimeFrame_append_only_witness:
  "\<not> has_value new_TimeFrame (FQExpr (Identifier ''main'') (Identifier ''x'') 0) \<and>
   value (set_values [(FQExpr (Identifier ''main'') (Identifier ''x'') 0, Numeric 2)]
            (set_value (FQExpr (Identifier ''main'') (Identifier ''x'') 0) (Numeric 1) new_TimeFrame))
     (FQExpr (Identifier ''main'') (Identifier ''x'') 0) = Inr (Numeric 1)"
  using TimeFrame_append_only [of "[(FQExpr (Identifier ''main'') (Identifier ''x'') 0, Numeric 2)]"
      "FQExpr (Identifier ''main'') (Identifier ''x'') 0" "Numeric 1" new_TimeFrame]
  by (simp add: has_value_def new_TimeFrame_def)

section \<open>The witness evaluator\<close>

text \<open>
  What the two hooks compute on any stack that ends with the values of the operands:
  the truncating quotient by a divisor other than 0 and \<open>- 1\<close>, and the left shift of a non-negative value by a count below
  64 that keeps it in the range of \<^verbatim>\<open>value_t\<close>.
\<close>

lemma walk_mul_postorder_divides:
  "f_expr_stack s = st @ [Numeric l, Numeric r] \<Longrightarrow> r \<noteq> 0 \<Longrightarrow> r \<noteq> - 1 \<Longrightarrow>
   walk_mul_postorder s = Inr (s\<lparr>f_expr_stack := st @ [Numeric (l sdiv r)]\<rparr>)"
  by (simp add: walk_mul_postorder_def walk_binary_postorder_def POP_VALUE_def PUSH_VALUE_def
      divide_def butlast_append)

lemma walk_rshift_postorder_shifts_left:
  assumes "f_expr_stack s = st @ [Numeric l, Numeric r]" "0 \<le> l" "0 \<le> r" "r < 64"
    "l * 2 ^ nat r < 2 ^ 63"
  shows "walk_rshift_postorder s = Inr (s\<lparr>f_expr_stack := st @ [Numeric (l * 2 ^ nat r)]\<rparr>)"
proof -
  have "0 \<le> l * 2 ^ nat r" using assms(2) by simp
  then have "wrap_value (l * 2 ^ nat r) = l * 2 ^ nat r"
    using assms(5) by (intro wrap_value_in_range) simp_all
  then show ?thesis
    using assms
    by (simp add: walk_rshift_postorder_def walk_binary_postorder_def POP_VALUE_def PUSH_VALUE_def
      shift_left_def butlast_append push_bit_eq_mult)
qed

text \<open>
  Claim C4 asks for the product. On a witness with \<open>x = 6\<close> and \<open>y = 3\<close> at step 0, the
  evaluator returns 2 for \<open>x * y\<close>: \<^verbatim>\<open>walk_mul_postorder\<close> computes \<open>lhs / rhs\<close>.
\<close>

theorem eval_mul_divides:
  "eval 0 (\<lambda>ctx e. Some Variable)
     [set_values [(FQExpr (Identifier ''main'') (Identifier ''x'') 0, Numeric 6),
                  (FQExpr (Identifier ''main'') (Identifier ''y'') 0, Numeric 3)] new_TimeFrame]
     (Identifier ''main'') (Binary MUL (Identifier ''x'') (Identifier ''y'')) 0 = Inr (Numeric 2)"
  by (simp add: eval_def process_def walk_preorder_def Evaluator_cache_miss_def is_unary_op_def
      Witness_has_value_def Witness_value_def has_value_def value_def set_value_def
      new_TimeFrame_def PUSH_EXPR_def walk_mul_postorder_def walk_binary_postorder_def
      POP_VALUE_def PUSH_VALUE_def divide_def signed_divide_int_def)

text \<open>
  Claim C5 asks for the right shift. On a witness with \<open>x = 8\<close> and \<open>y = 1\<close> at step 0,
  the evaluator returns 16 for \<open>x >> y\<close>: \<^verbatim>\<open>walk_rshift_postorder\<close> computes \<open>lhs << rhs\<close>, as
  \<^verbatim>\<open>walk_lshift_postorder\<close> does.
\<close>

theorem eval_rshift_shifts_left:
  "eval 0 (\<lambda>ctx e. Some Variable)
     [set_values [(FQExpr (Identifier ''main'') (Identifier ''x'') 0, Numeric 8),
                  (FQExpr (Identifier ''main'') (Identifier ''y'') 0, Numeric 1)] new_TimeFrame]
     (Identifier ''main'') (Binary RSHIFT (Identifier ''x'') (Identifier ''y'')) 0 = Inr (Numeric 16)"
  by (simp add: eval_def process_def walk_preorder_def Evaluator_cache_miss_def is_unary_op_def
      Witness_has_value_def Witness_value_def has_value_def value_def set_value_def
      new_TimeFrame_def PUSH_EXPR_def walk_rshift_postorder_def walk_binary_postorder_def
      POP_VALUE_def PUSH_VALUE_def shift_left_def wrap_value_def)

section \<open>The compilation cache\<close>

lemma register_frame:
  "f_add_stack (register s r) = f_add_stack s \<and>
   f_type_stack (register s r) = f_type_stack s \<and>
   f_ctx_stack (register s r) = f_ctx_stack s \<and>
   f_time_stack (register s r) = f_time_stack s \<and>
   f_cache (register s r) = f_cache s \<and>
   f_preprocess (register s r) = f_preprocess s"
proof (cases r)
  case (RegisterMicro signedness symb width z x y)
  then show ?thesis by (simp add: register_microdescriptor_def)
next
  case (RegisterMux toplevel width z c a x y)
  then show ?thesis by (simp add: register_muxdescriptor_def Let_def)
qed

lemma foldl_register_frame:
  "f_add_stack (foldl register s regs) = f_add_stack s \<and>
   f_type_stack (foldl register s regs) = f_type_stack s \<and>
   f_ctx_stack (foldl register s regs) = f_ctx_stack s \<and>
   f_time_stack (foldl register s regs) = f_time_stack s \<and>
   f_cache (foldl register s regs) = f_cache s \<and>
   f_preprocess (foldl register s regs) = f_preprocess s"
proof (induction regs rule: rev_induct)
  case Nil
  then show ?case by simp
next
  case (snoc r regs)
  then show ?case using register_frame[of "foldl register s regs" r] by simp
qed

lemma register_micro_append:
  "f_micro_descriptors (register s r) =
     f_micro_descriptors s @ f_micro_descriptors (register (s\<lparr>f_micro_descriptors := []\<rparr>) r)"
proof (cases r)
  case (RegisterMicro signedness symb width z x y)
  then show ?thesis by (simp add: register_microdescriptor_def)
next
  case (RegisterMux toplevel width z c a x y)
  then show ?thesis by (simp add: register_muxdescriptor_def Let_def)
qed

lemma register_micro_cong:
  assumes "f_micro_descriptors a = f_micro_descriptors b"
  shows "f_micro_descriptors (register a r) = f_micro_descriptors (register b r)"
proof (cases r)
  case (RegisterMicro signedness symb width z x y)
  then show ?thesis by (simp add: register_microdescriptor_def assms)
next
  case (RegisterMux toplevel width z c a x y)
  then show ?thesis by (simp add: register_muxdescriptor_def Let_def assms)
qed

lemma register_mux_cong:
  assumes "f_mux_map a = f_mux_map b"
  shows "f_mux_map (register a r) = f_mux_map (register b r)"
proof (cases r)
  case (RegisterMicro signedness symb width z x y)
  then show ?thesis by (simp add: register_microdescriptor_def assms)
next
  case (RegisterMux toplevel width z c a x y)
  then show ?thesis by (simp add: register_muxdescriptor_def Let_def assms)
qed

lemma foldl_register_mux_cong:
  "f_mux_map a = f_mux_map b \<Longrightarrow>
   f_mux_map (foldl register a regs) = f_mux_map (foldl register b regs)"
proof (induction regs rule: rev_induct)
  case Nil
  then show ?case by simp
next
  case (snoc r regs)
  show ?case using register_mux_cong[OF snoc.IH[OF snoc.prems], of r] by simp
qed

lemma foldl_register_micro_append:
  "f_micro_descriptors b = [] \<Longrightarrow>
   f_micro_descriptors (foldl register a regs) =
     f_micro_descriptors a @ f_micro_descriptors (foldl register b regs)"
proof (induction regs rule: rev_induct)
  case Nil
  then show ?case by simp
next
  case (snoc r regs)
  have 1: "f_micro_descriptors (register (foldl register a regs) r) =
      f_micro_descriptors (foldl register a regs) @
      f_micro_descriptors (register ((foldl register a regs)\<lparr>f_micro_descriptors := []\<rparr>) r)"
    by (rule register_micro_append)
  have 2: "f_micro_descriptors (register (foldl register b regs) r) =
      f_micro_descriptors (foldl register b regs) @
      f_micro_descriptors (register ((foldl register b regs)\<lparr>f_micro_descriptors := []\<rparr>) r)"
    by (rule register_micro_append)
  have 3: "f_micro_descriptors (register ((foldl register a regs)\<lparr>f_micro_descriptors := []\<rparr>) r) =
      f_micro_descriptors (register ((foldl register b regs)\<lparr>f_micro_descriptors := []\<rparr>) r)"
    by (rule register_micro_cong) simp
  from snoc have ih: "f_micro_descriptors (foldl register a regs) =
     f_micro_descriptors a @ f_micro_descriptors (foldl register b regs)" by blast
  show ?case unfolding foldl_append foldl_Cons foldl_Nil 1 2 3 ih by simp
qed

lemma mux_push_back_keys: "map fst (mux_push_back toplevel md m) = map fst m"
  by (induction m) (auto simp: mux_push_back_def)

lemma register_mux_distinct:
  "distinct (map fst (f_mux_map s)) \<Longrightarrow> distinct (map fst (f_mux_map (register s r)))"
  by (cases r)
    (auto simp: register_microdescriptor_def register_muxdescriptor_def Let_def
      mux_push_back_keys mux_insert_def mux_find_def map_of_eq_None_iff)

lemma foldl_register_mux_distinct:
  "distinct (map fst (f_mux_map s)) \<Longrightarrow> distinct (map fst (f_mux_map (foldl register s regs)))"
  by (induction regs rule: rev_induct) (simp_all add: register_mux_distinct)

lemma foldl_mux_insert_find:
  "mux_find (foldl (\<lambda>m entry. mux_insert entry m) m0 es) T =
     (case mux_find m0 T of Some ds \<Rightarrow> Some ds | None \<Rightarrow> mux_find es T)"
proof (induction es arbitrary: m0)
  case Nil
  then show ?case by (simp add: mux_find_def split: option.splits)
next
  case (Cons e es)
  show ?case
    unfolding foldl_Cons Cons
    by (cases e) (auto simp: mux_insert_def mux_find_def split: option.splits)
qed

lemma foldl_mux_insert_distinct:
  "distinct (map fst es) \<Longrightarrow> set (map fst m0) \<inter> set (map fst es) = {} \<Longrightarrow>
   foldl (\<lambda>m entry. mux_insert entry m) m0 es = m0 @ es"
proof (induction es arbitrary: m0)
  case Nil
  then show ?case by simp
next
  case (Cons e es)
  have n: "mux_find m0 (fst e) = None"
    using Cons.prems(2) by (auto simp: mux_find_def map_of_eq_None_iff)
  have i: "mux_insert e m0 = m0 @ [e]"
    using n by (simp add: mux_insert_def)
  have "foldl (\<lambda>m entry. mux_insert entry m) (m0 @ [e]) es = (m0 @ [e]) @ es"
    using Cons.prems by (intro Cons.IH) auto
  then show ?case by (simp add: i)
qed

lemma emit_fields:
  "f_add_stack (emit regs dv ty s) = f_add_stack s @ rev dv"
  "f_type_stack (emit regs dv ty s) = f_type_stack s @ [ty]"
  "f_ctx_stack (emit regs dv ty s) = f_ctx_stack s"
  "f_time_stack (emit regs dv ty s) = f_time_stack s"
  "f_cache (emit regs dv ty s) = f_cache s"
  "f_preprocess (emit regs dv ty s) = f_preprocess s"
  "f_micro_descriptors (emit regs dv ty s) = f_micro_descriptors (foldl register s regs)"
  "f_mux_map (emit regs dv ty s) = f_mux_map (foldl register s regs)"
  using foldl_register_frame[of s regs] by (simp_all add: emit_def Let_def)

lemma post_node_hook_buffers:
  "post_node_hook owner e u = Inr u' \<Longrightarrow> same_working_buffers u' u"
  by (auto simp: post_node_hook_def same_working_buffers_def Let_def split: if_splits)

lemma post_node_hook_succeeds:
  "f_ctx_stack u \<noteq> [] \<Longrightarrow> f_time_stack u \<noteq> [] \<Longrightarrow> f_type_stack u \<noteq> [] \<Longrightarrow>
   type_width owner (last (f_type_stack u)) \<le> length (f_add_stack u) \<Longrightarrow>
   \<exists>u'. post_node_hook owner e u = Inr u'"
  by (simp add: post_node_hook_def Let_def)

lemma cold_compile_entry:
  assumes cold: "cold_compile owner e regs dv ty s = Inr s'"
    and np: "\<not> f_preprocess s" and nt: "\<not> is_type owner e"
    and miss: "f_cache s (FQExpr (last (f_ctx_stack s)) e (last (f_time_stack s))) = None"
    and w: "type_width owner ty = length dv"
  shows "f_cache s' (FQExpr (last (f_ctx_stack s)) e (last (f_time_stack s))) =
           Some (CompilationUnit dv (f_micro_descriptors (foldl register s regs))
                   (f_mux_map (foldl register s regs)))"
    and "f_micro_descriptors s' = f_micro_descriptors (foldl register s regs)"
    and "f_mux_map s' = f_mux_map (foldl register s regs)"
proof -
  let ?u = "emit regs dv ty s"
  let ?key = "FQExpr (last (f_ctx_stack s)) e (last (f_time_stack s))"
  have tk: "take (length dv) (rev (f_add_stack ?u)) = dv"
    by (simp add: emit_fields)
  from cold np nt miss w
  have s': "s' = ?u\<lparr>f_cache := (f_cache ?u)(?key \<mapsto>
        CompilationUnit dv (f_micro_descriptors ?u) (f_mux_map ?u))\<rparr>"
    unfolding cold_compile_def post_node_hook_def Let_def
    by (simp add: emit_fields split: if_splits)
  show "f_cache s' ?key = Some (CompilationUnit dv (f_micro_descriptors (foldl register s regs))
                   (f_mux_map (foldl register s regs)))"
    by (simp add: s' emit_fields)
  show "f_micro_descriptors s' = f_micro_descriptors (foldl register s regs)"
    by (simp add: s' emit_fields)
  show "f_mux_map s' = f_mux_map (foldl register s regs)"
    by (simp add: s' emit_fields)
qed

text \<open>
  Claim C1, as the code has it. Let a cold compilation of \<open>e\<close>, on a miss at the key
  \<open>(ctx, e, time)\<close>, emit the registrations \<open>regs\<close>, the DDVector \<open>dv\<close> and the type \<open>ty\<close>
  from the state \<open>s\<close>, and let the post-node hook memoize it, giving \<open>s'\<close>. In every later
  state \<open>t\<close> with the same context and time on top and that entry in its cache,
  \<open>cache_miss\<close> reports a hit and re-pushes the cached DDVector in reverse order and
  the resolved type, which is the effect of the cold compilation on the ADD stack and on
  the type stack. It appends the whole microcode buffer memoized with the entry, that
  of \<open>s'\<close>, and inserts every memoized MUX list whose toplevel has no list yet. When the
  cold compilation started from an empty microcode buffer and an empty MUX map, and
  the MUX map of \<open>t\<close> is empty, the hit leaves the same working buffers as compiling \<open>e\<close>
  from cold in \<open>t\<close>.
\<close>

theorem cache_hit_replays_compilation:
  assumes cold: "cold_compile owner e regs dv ty s = Inr s'"
    and np: "\<not> f_preprocess s" and nt: "\<not> is_type owner e"
    and miss: "f_cache s (FQExpr (last (f_ctx_stack s)) e (last (f_time_stack s))) = None"
    and w: "type_width owner ty = length dv"
    and ty: "type_of owner e (last (f_ctx_stack s)) = ty"
    and tc: "f_ctx_stack t \<noteq> []" "last (f_ctx_stack t) = last (f_ctx_stack s)"
    and tt: "f_time_stack t \<noteq> []" "last (f_time_stack t) = last (f_time_stack s)"
    and te: "f_cache t (FQExpr (last (f_ctx_stack s)) e (last (f_time_stack s))) =
             f_cache s' (FQExpr (last (f_ctx_stack s)) e (last (f_time_stack s)))"
  shows "\<exists>t'. Compiler_cache_miss owner e t = Inr (False, t') \<and>
      f_add_stack t' = f_add_stack t @ rev dv \<and>
      f_type_stack t' = f_type_stack t @ [ty] \<and>
      f_micro_descriptors t' = f_micro_descriptors t @ f_micro_descriptors s' \<and>
      (\<forall>T. mux_find (f_mux_map t') T =
             (case mux_find (f_mux_map t) T of
                Some ds \<Rightarrow> Some ds
              | None \<Rightarrow> mux_find (f_mux_map s') T)) \<and>
      f_ctx_stack t' = f_ctx_stack t \<and> f_time_stack t' = f_time_stack t \<and>
      f_cache t' = f_cache t \<and>
      (f_micro_descriptors s = [] \<and> f_mux_map s = [] \<and> f_mux_map t = [] \<longrightarrow>
         (\<exists>t''. cold_compile owner e regs dv ty (t\<lparr>f_cache := Map.empty\<rparr>) = Inr t'' \<and>
                same_working_buffers t' t''))"
proof -
  let ?key = "FQExpr (last (f_ctx_stack s)) e (last (f_time_stack s))"
  let ?micro = "f_micro_descriptors (foldl register s regs)"
  let ?mux = "f_mux_map (foldl register s regs)"
  note entry = cold_compile_entry[OF cold np nt miss w]
  let ?t' = "t\<lparr>f_add_stack := f_add_stack t @ rev dv,
               f_micro_descriptors := f_micro_descriptors t @ ?micro,
               f_mux_map := foldl (\<lambda>m entry. mux_insert entry m) (f_mux_map t) ?mux,
               f_type_stack := f_type_stack t @ [ty]\<rparr>"
  have hit: "Compiler_cache_miss owner e t = Inr (False, ?t')"
    using tc tt te entry(1) ty by (simp add: Compiler_cache_miss_def Let_def)
  have clean: "\<exists>t''. cold_compile owner e regs dv ty (t\<lparr>f_cache := Map.empty\<rparr>) = Inr t'' \<and>
                same_working_buffers ?t' t''"
    if c: "f_micro_descriptors s = []" "f_mux_map s = []" "f_mux_map t = []"
  proof -
    let ?t0 = "t\<lparr>f_cache := Map.empty\<rparr>"
    let ?u = "emit regs dv ty ?t0"
    have "\<exists>u'. post_node_hook owner e ?u = Inr u'"
      using tc(1) tt(1) w by (intro post_node_hook_succeeds) (simp_all add: emit_fields)
    then obtain t'' where t'': "cold_compile owner e regs dv ty ?t0 = Inr t''"
      by (auto simp: cold_compile_def)
    then have b: "same_working_buffers t'' ?u"
      by (auto simp: cold_compile_def dest: post_node_hook_buffers)
    have m1: "f_micro_descriptors (foldl register ?t0 regs) = f_micro_descriptors ?t0 @ ?micro"
      by (rule foldl_register_micro_append) (rule c(1))
    have m2: "f_mux_map (foldl register ?t0 regs) = ?mux"
      by (rule foldl_register_mux_cong) (simp add: c)
    have d: "distinct (map fst ?mux)"
      by (rule foldl_register_mux_distinct) (simp add: c)
    have m3: "foldl (\<lambda>m entry. mux_insert entry m) (f_mux_map t) ?mux = ?mux"
      using foldl_mux_insert_distinct[OF d, of "[]"] c(3) by simp
    have "same_working_buffers ?t' ?u"
      using m1 m2 m3 by (simp add: same_working_buffers_def emit_fields)
    with b have "same_working_buffers ?t' t''"
      by (simp add: same_working_buffers_def)
    with t'' show ?thesis by blast
  qed
  show ?thesis
  proof (rule exI[of _ ?t'], intro conjI allI impI)
    show "Compiler_cache_miss owner e t = Inr (False, ?t')" by (rule hit)
    show "f_micro_descriptors ?t' = f_micro_descriptors t @ f_micro_descriptors s'"
      by (simp add: entry(2))
    show "mux_find (f_mux_map ?t') T =
             (case mux_find (f_mux_map t) T of
                Some ds \<Rightarrow> Some ds
              | None \<Rightarrow> mux_find (f_mux_map s') T)" for T
      by (simp add: entry(3) foldl_mux_insert_find split: option.splits)
    show "\<exists>t''. cold_compile owner e regs dv ty (t\<lparr>f_cache := Map.empty\<rparr>) = Inr t'' \<and>
                same_working_buffers ?t' t''"
      if "f_micro_descriptors s = [] \<and> f_mux_map s = [] \<and> f_mux_map t = []"
      using clean that by blast
  qed simp_all
qed

lemma cold_compile_clean_example:
  "cold_compile \<lparr>type_of = \<lambda>e c. BooleanType, is_type = \<lambda>e. False, type_width = \<lambda>ty. 1\<rparr>
     (Binary LT (Identifier ''x'') (Identifier ''y''))
     [RegisterMicro False LT 1 [Bit 9] [Bit 0] [Bit 1]] [Bit 9] BooleanType
     \<lparr>f_add_stack = [], f_type_stack = [], f_ctx_stack = [Identifier ''main''],
      f_time_stack = [0], f_micro_descriptors = [], f_mux_map = [], f_cache = Map.empty,
      f_preprocess = False\<rparr>
   = Inr \<lparr>f_add_stack = [Bit 9], f_type_stack = [BooleanType],
      f_ctx_stack = [Identifier ''main''], f_time_stack = [0],
      f_micro_descriptors = [MicroDescriptor (False, LT, 1) [Bit 9] [Bit 0] [Bit 1]],
      f_mux_map = [],
      f_cache = [FQExpr (Identifier ''main'') (Binary LT (Identifier ''x'') (Identifier ''y'')) 0 \<mapsto>
        CompilationUnit [Bit 9] [MicroDescriptor (False, LT, 1) [Bit 9] [Bit 0] [Bit 1]] []],
      f_preprocess = False\<rparr>"
  by (simp add: cold_compile_def post_node_hook_def emit_def register_microdescriptor_def
      make_op_triple_def Let_def)

theorem cache_hit_replays_compilation_witness:
  "\<exists>t' t''.
     Compiler_cache_miss \<lparr>type_of = \<lambda>e c. BooleanType, is_type = \<lambda>e. False, type_width = \<lambda>ty. 1\<rparr>
       (Binary LT (Identifier ''x'') (Identifier ''y''))
       \<lparr>f_add_stack = [Bit 9], f_type_stack = [BooleanType],
        f_ctx_stack = [Identifier ''main''], f_time_stack = [0],
        f_micro_descriptors = [MicroDescriptor (False, LT, 1) [Bit 9] [Bit 0] [Bit 1]],
        f_mux_map = [],
        f_cache = [FQExpr (Identifier ''main'') (Binary LT (Identifier ''x'') (Identifier ''y'')) 0 \<mapsto>
          CompilationUnit [Bit 9] [MicroDescriptor (False, LT, 1) [Bit 9] [Bit 0] [Bit 1]] []],
        f_preprocess = False\<rparr> = Inr (False, t') \<and>
     f_add_stack t' = [Bit 9, Bit 9] \<and>
     cold_compile \<lparr>type_of = \<lambda>e c. BooleanType, is_type = \<lambda>e. False, type_width = \<lambda>ty. 1\<rparr>
       (Binary LT (Identifier ''x'') (Identifier ''y''))
       [RegisterMicro False LT 1 [Bit 9] [Bit 0] [Bit 1]] [Bit 9] BooleanType
       \<lparr>f_add_stack = [Bit 9], f_type_stack = [BooleanType],
        f_ctx_stack = [Identifier ''main''], f_time_stack = [0],
        f_micro_descriptors = [MicroDescriptor (False, LT, 1) [Bit 9] [Bit 0] [Bit 1]],
        f_mux_map = [], f_cache = Map.empty, f_preprocess = False\<rparr> = Inr t'' \<and>
     same_working_buffers t' t''"
  using cache_hit_replays_compilation [OF cold_compile_clean_example,
      of "\<lparr>f_add_stack = [Bit 9], f_type_stack = [BooleanType],
        f_ctx_stack = [Identifier ''main''], f_time_stack = [0],
        f_micro_descriptors = [MicroDescriptor (False, LT, 1) [Bit 9] [Bit 0] [Bit 1]],
        f_mux_map = [],
        f_cache = [FQExpr (Identifier ''main'') (Binary LT (Identifier ''x'') (Identifier ''y'')) 0 \<mapsto>
          CompilationUnit [Bit 9] [MicroDescriptor (False, LT, 1) [Bit 9] [Bit 0] [Bit 1]] []],
        f_preprocess = False\<rparr>"]
  by simp blast

text \<open>
  Equality with a cold compilation fails when the microcode buffer was not empty at the
  time of memoization. The entry for \<open>x < y\<close> is memoized while the buffer holds the
  descriptor of an earlier \<open>>\<close>; a hit right after appends both descriptors again, where
  a cold compilation appends the descriptor of \<open>x < y\<close> alone.
\<close>

theorem cache_hit_duplicates_descriptors_counterexample:
  "\<not> isl (cold_compile \<lparr>type_of = \<lambda>e c. BooleanType, is_type = \<lambda>e. False, type_width = \<lambda>ty. 1\<rparr>
       (Binary LT (Identifier ''x'') (Identifier ''y''))
       [RegisterMicro False LT 1 [Bit 9] [Bit 0] [Bit 1]] [Bit 9] BooleanType
       \<lparr>f_add_stack = [Bit 8], f_type_stack = [BooleanType],
        f_ctx_stack = [Identifier ''main''], f_time_stack = [0],
        f_micro_descriptors = [MicroDescriptor (False, GT, 1) [Bit 8] [Bit 2] [Bit 3]],
        f_mux_map = [], f_cache = Map.empty, f_preprocess = False\<rparr>) \<and>
   f_micro_descriptors (snd (projr (Compiler_cache_miss
       \<lparr>type_of = \<lambda>e c. BooleanType, is_type = \<lambda>e. False, type_width = \<lambda>ty. 1\<rparr>
       (Binary LT (Identifier ''x'') (Identifier ''y''))
       (projr (cold_compile \<lparr>type_of = \<lambda>e c. BooleanType, is_type = \<lambda>e. False, type_width = \<lambda>ty. 1\<rparr>
         (Binary LT (Identifier ''x'') (Identifier ''y''))
         [RegisterMicro False LT 1 [Bit 9] [Bit 0] [Bit 1]] [Bit 9] BooleanType
         \<lparr>f_add_stack = [Bit 8], f_type_stack = [BooleanType],
          f_ctx_stack = [Identifier ''main''], f_time_stack = [0],
          f_micro_descriptors = [MicroDescriptor (False, GT, 1) [Bit 8] [Bit 2] [Bit 3]],
          f_mux_map = [], f_cache = Map.empty, f_preprocess = False\<rparr>)))))
     = [MicroDescriptor (False, GT, 1) [Bit 8] [Bit 2] [Bit 3],
        MicroDescriptor (False, LT, 1) [Bit 9] [Bit 0] [Bit 1],
        MicroDescriptor (False, GT, 1) [Bit 8] [Bit 2] [Bit 3],
        MicroDescriptor (False, LT, 1) [Bit 9] [Bit 0] [Bit 1]] \<and>
   f_micro_descriptors (projr (cold_compile
       \<lparr>type_of = \<lambda>e c. BooleanType, is_type = \<lambda>e. False, type_width = \<lambda>ty. 1\<rparr>
       (Binary LT (Identifier ''x'') (Identifier ''y''))
       [RegisterMicro False LT 1 [Bit 9] [Bit 0] [Bit 1]] [Bit 9] BooleanType
       ((projr (cold_compile \<lparr>type_of = \<lambda>e c. BooleanType, is_type = \<lambda>e. False, type_width = \<lambda>ty. 1\<rparr>
         (Binary LT (Identifier ''x'') (Identifier ''y''))
         [RegisterMicro False LT 1 [Bit 9] [Bit 0] [Bit 1]] [Bit 9] BooleanType
         \<lparr>f_add_stack = [Bit 8], f_type_stack = [BooleanType],
          f_ctx_stack = [Identifier ''main''], f_time_stack = [0],
          f_micro_descriptors = [MicroDescriptor (False, GT, 1) [Bit 8] [Bit 2] [Bit 3]],
          f_mux_map = [], f_cache = Map.empty, f_preprocess = False\<rparr>))\<lparr>f_cache := Map.empty\<rparr>)))
     = [MicroDescriptor (False, GT, 1) [Bit 8] [Bit 2] [Bit 3],
        MicroDescriptor (False, LT, 1) [Bit 9] [Bit 0] [Bit 1],
        MicroDescriptor (False, LT, 1) [Bit 9] [Bit 0] [Bit 1]]"
  by (simp add: cold_compile_def post_node_hook_def emit_def register_microdescriptor_def
      make_op_triple_def Let_def Compiler_cache_miss_def)

section \<open>MUX post-processing\<close>

lemma mux_activation_loop_append:
  "mux_activation_loop prev js stack = stack @ mux_activation_loop prev js []"
proof (induction js arbitrary: prev stack)
  case Nil
  then show ?case by simp
next
  case (Cons j js)
  show ?case
    using Cons[of "Times (Cmpl prev) (cnd j)" "stack @ [Xnor (Times (Cmpl prev) (cnd j)) (aux j)]"]
      Cons[of "Times (Cmpl prev) (cnd j)" "[Xnor (Times (Cmpl prev) (cnd j)) (aux j)]"]
    by (simp add: Let_def)
qed

lemma mux_activation_loop_Cons:
  "mux_activation_loop prev (j # js) [] =
     Xnor (Times (Cmpl prev) (cnd j)) (aux j) # mux_activation_loop (Times (Cmpl prev) (cnd j)) js []"
  using mux_activation_loop_append[of "Times (Cmpl prev) (cnd j)" js
      "[Xnor (Times (Cmpl prev) (cnd j)) (aux j)]"]
  by (simp add: Let_def)

declare mux_activation_loop.simps(2) [simp del]

lemma mux_activation_loop_length: "length (mux_activation_loop prev js []) = length js"
  by (induction js arbitrary: prev) (simp_all add: mux_activation_loop_Cons)

lemma mux_activation_loop_aux:
  "k < length js \<Longrightarrow> \<exists>act. mux_activation_loop prev js [] ! k = Xnor act (aux (js ! k))"
proof (induction js arbitrary: prev k)
  case Nil
  then show ?case by simp
next
  case (Cons j js)
  then show ?case by (cases k) (auto simp: mux_activation_loop_Cons)
qed

lemma mux_activation_loop_first_two:
  "k < length js \<Longrightarrow> k < 2 \<Longrightarrow>
   add_equal (mux_activation_loop f_enc_zero js [] ! k) (spec_activation_clause js k)"
proof -
  assume k: "k < length js" "k < 2"
  show ?thesis
  proof (cases js)
    case Nil
    with k show ?thesis by simp
  next
    case (Cons j0 js')
    show ?thesis
    proof (cases k)
      case 0
      then show ?thesis
        by (simp add: Cons mux_activation_loop_Cons spec_activation_clause_def add_equal_def)
    next
      case (Suc k')
      with k have k': "k' = 0" by simp
      from k Suc Cons obtain j1 js'' where js': "js' = j1 # js''" by (cases js') auto
      show ?thesis
        by (simp add: Suc k' Cons js' mux_activation_loop_Cons spec_activation_clause_def
            add_equal_def f_enc_zero_def)
    qed
  qed
qed

lemma mux_map_loop_concat:
  "mux_map_loop m stack =
     stack @ concat (map (\<lambda>entry. mux_activation_loop f_enc_zero (rev (snd entry)) []) m)"
proof (induction m arbitrary: stack)
  case Nil
  then show ?case by simp
next
  case (Cons entry m)
  obtain toplevel descriptors where e: "entry = (toplevel, descriptors)" by (cases entry)
  show ?case
    using Cons[of "mux_activation_loop f_enc_zero (rev descriptors) stack"]
      mux_activation_loop_append[of f_enc_zero "rev descriptors" stack]
    by (simp add: e)
qed

lemma length_concat_activation:
  "length (concat (map (\<lambda>entry. mux_activation_loop f_enc_zero (rev (snd entry)) []) m)) =
     sum_list (map (\<lambda>entry. length (snd entry)) m)"
  by (induction m) (simp_all add: mux_activation_loop_length)

lemma post_process_muxes_nth:
  assumes "f_mux_map s = before @ (toplevel, ds) # after"
    and "k < length ds"
  shows "f_add_stack (post_process_muxes s)
            ! (length (f_add_stack s) + sum_list (map (\<lambda>entry. length (snd entry)) before) + k)
          = mux_activation_loop f_enc_zero (rev ds) [] ! k"
proof -
  let ?P = "\<lambda>entry. mux_activation_loop f_enc_zero (rev (snd entry)) []"
  let ?off = "length (f_add_stack s) + sum_list (map (\<lambda>entry. length (snd entry)) before)"
  have st: "f_add_stack (post_process_muxes s) =
      (f_add_stack s @ concat (map ?P before)) @ ?P (toplevel, ds) @ concat (map ?P after)"
    by (simp add: post_process_muxes_def mux_map_loop_concat assms(1))
  have lo: "length (f_add_stack s @ concat (map ?P before)) = ?off"
    by (simp add: length_concat_activation)
  have lk: "k < length (?P (toplevel, ds))"
    using assms(2) by (simp add: mux_activation_loop_length)
  have "f_add_stack (post_process_muxes s) ! (?off + k) = ?P (toplevel, ds) ! k"
    unfolding st using lo lk by (metis nth_append_length_plus nth_append)
  then show ?thesis by simp
qed

text \<open>
  Claim C2, as the code has it. For every toplevel owning the descriptors \<open>ds\<close>, the pass
  pushes one conjunct per descriptor, \<open>Xnor act (aux d)\<close>, in reverse insertion order:
  the conjunct of index \<open>k\<close> among those of the toplevel belongs to \<open>rev ds ! k\<close>. Nothing
  else is pushed and the stack below is kept. For the last two registered descriptors
  (\<open>k < 2\<close>) the conjunct is the activation clause of the specification taken over the
  reversed list: \<open>prev\<close> is 0 for the last registered descriptor and the condition of the
  last registered one for the descriptor before it, so \<open>prev\<close> collects the conditions of
  the descriptors registered later.
\<close>

theorem post_process_muxes_reverse_order:
  assumes "f_mux_map s = before @ (toplevel, ds) # after"
  shows "length (f_add_stack (post_process_muxes s)) =
           length (f_add_stack s) + sum_list (map (\<lambda>entry. length (snd entry)) (f_mux_map s)) \<and>
         take (length (f_add_stack s)) (f_add_stack (post_process_muxes s)) = f_add_stack s \<and>
         (\<forall>k<length ds.
            (\<exists>act. f_add_stack (post_process_muxes s)
                 ! (length (f_add_stack s) + sum_list (map (\<lambda>entry. length (snd entry)) before) + k)
               = Xnor act (aux (rev ds ! k))) \<and>
            (k < 2 \<longrightarrow>
               add_equal (f_add_stack (post_process_muxes s)
                 ! (length (f_add_stack s) + sum_list (map (\<lambda>entry. length (snd entry)) before) + k))
                 (spec_activation_clause (rev ds) k)))"
proof (intro conjI allI impI)
  show "length (f_add_stack (post_process_muxes s)) =
           length (f_add_stack s) + sum_list (map (\<lambda>entry. length (snd entry)) (f_mux_map s))"
    by (simp add: post_process_muxes_def mux_map_loop_concat length_concat_activation)
  show "take (length (f_add_stack s)) (f_add_stack (post_process_muxes s)) = f_add_stack s"
    by (simp add: post_process_muxes_def mux_map_loop_concat)
next
  fix k assume k: "k < length ds"
  show "\<exists>act. f_add_stack (post_process_muxes s)
                 ! (length (f_add_stack s) + sum_list (map (\<lambda>entry. length (snd entry)) before) + k)
               = Xnor act (aux (rev ds ! k))"
    unfolding post_process_muxes_nth[OF assms k]
    using mux_activation_loop_aux[of k "rev ds" f_enc_zero] k by simp
next
  fix k assume k: "k < length ds" "k < 2"
  show "add_equal (f_add_stack (post_process_muxes s)
                 ! (length (f_add_stack s) + sum_list (map (\<lambda>entry. length (snd entry)) before) + k))
                 (spec_activation_clause (rev ds) k)"
    unfolding post_process_muxes_nth[OF assms k(1)]
    using mux_activation_loop_first_two[of k "rev ds"] k by simp
qed

lemma two_mux_state:
  "f_mux_map \<lparr>f_add_stack = [Bit 20], f_type_stack = [BooleanType],
       f_ctx_stack = [Identifier ''main''], f_time_stack = [0], f_micro_descriptors = [],
       f_mux_map = [(Identifier ''t'',
          [MuxDescriptor 1 [Bit 4] (Bit 0) (Bit 2) [Bit 6] [Bit 7],
           MuxDescriptor 1 [Bit 5] (Bit 1) (Bit 3) [Bit 8] [Bit 9]])],
       f_cache = Map.empty, f_preprocess = False\<rparr>
   = [] @ (Identifier ''t'',
          [MuxDescriptor 1 [Bit 4] (Bit 0) (Bit 2) [Bit 6] [Bit 7],
           MuxDescriptor 1 [Bit 5] (Bit 1) (Bit 3) [Bit 8] [Bit 9]]) # []"
  by simp

theorem post_process_muxes_reverse_order_witness:
  "length (f_add_stack (post_process_muxes
      \<lparr>f_add_stack = [Bit 20], f_type_stack = [BooleanType],
       f_ctx_stack = [Identifier ''main''], f_time_stack = [0], f_micro_descriptors = [],
       f_mux_map = [(Identifier ''t'',
          [MuxDescriptor 1 [Bit 4] (Bit 0) (Bit 2) [Bit 6] [Bit 7],
           MuxDescriptor 1 [Bit 5] (Bit 1) (Bit 3) [Bit 8] [Bit 9]])],
       f_cache = Map.empty, f_preprocess = False\<rparr>)) = 3 \<and>
   add_equal (f_add_stack (post_process_muxes
      \<lparr>f_add_stack = [Bit 20], f_type_stack = [BooleanType],
       f_ctx_stack = [Identifier ''main''], f_time_stack = [0], f_micro_descriptors = [],
       f_mux_map = [(Identifier ''t'',
          [MuxDescriptor 1 [Bit 4] (Bit 0) (Bit 2) [Bit 6] [Bit 7],
           MuxDescriptor 1 [Bit 5] (Bit 1) (Bit 3) [Bit 8] [Bit 9]])],
       f_cache = Map.empty, f_preprocess = False\<rparr>) ! 2)
     (Xnor (Times (Cmpl (Or f_enc_zero (Bit 1))) (Bit 0)) (Bit 2))"
proof -
  note t = post_process_muxes_reverse_order [OF two_mux_state]
  from t have "length (f_add_stack (post_process_muxes
      \<lparr>f_add_stack = [Bit 20], f_type_stack = [BooleanType],
       f_ctx_stack = [Identifier ''main''], f_time_stack = [0], f_micro_descriptors = [],
       f_mux_map = [(Identifier ''t'',
          [MuxDescriptor 1 [Bit 4] (Bit 0) (Bit 2) [Bit 6] [Bit 7],
           MuxDescriptor 1 [Bit 5] (Bit 1) (Bit 3) [Bit 8] [Bit 9]])],
       f_cache = Map.empty, f_preprocess = False\<rparr>)) = 3"
    by simp
  moreover from t [THEN conjunct2, THEN conjunct2, rule_format, of 1]
  have "add_equal (f_add_stack (post_process_muxes
      \<lparr>f_add_stack = [Bit 20], f_type_stack = [BooleanType],
       f_ctx_stack = [Identifier ''main''], f_time_stack = [0], f_micro_descriptors = [],
       f_mux_map = [(Identifier ''t'',
          [MuxDescriptor 1 [Bit 4] (Bit 0) (Bit 2) [Bit 6] [Bit 7],
           MuxDescriptor 1 [Bit 5] (Bit 1) (Bit 3) [Bit 8] [Bit 9]])],
       f_cache = Map.empty, f_preprocess = False\<rparr>) ! 2)
     (Xnor (Times (Cmpl (Or f_enc_zero (Bit 1))) (Bit 0)) (Bit 2))"
    by (simp add: spec_activation_clause_def numeral_2_eq_2)
  ultimately show ?thesis by blast
qed

text \<open>
  With \<open>prev\<close> collected over the descriptors registered earlier, as C2 words it, the
  clause of the second of two descriptors is \<open>Xnor (\<not> cnd d\<^sub>0 \<and> cnd d\<^sub>1) (aux d\<^sub>1)\<close>. Under
  the assignment that sets both conditions and \<open>aux d\<^sub>0\<close> but not \<open>aux d\<^sub>1\<close>, that clause
  evaluates to 1 while both conjuncts the pass pushes evaluate to 0: neither is that
  clause.
\<close>

theorem post_process_muxes_insertion_order_counterexample:
  "map (\<lambda>c. Eval c (\<lambda>i. i < 3))
     (drop 1 (f_add_stack (post_process_muxes
      \<lparr>f_add_stack = [Bit 20], f_type_stack = [BooleanType],
       f_ctx_stack = [Identifier ''main''], f_time_stack = [0], f_micro_descriptors = [],
       f_mux_map = [(Identifier ''t'',
          [MuxDescriptor 1 [Bit 4] (Bit 0) (Bit 2) [Bit 6] [Bit 7],
           MuxDescriptor 1 [Bit 5] (Bit 1) (Bit 3) [Bit 8] [Bit 9]])],
       f_cache = Map.empty, f_preprocess = False\<rparr>))) = [0, 0] \<and>
   Eval (spec_activation_clause
          [MuxDescriptor 1 [Bit 4] (Bit 0) (Bit 2) [Bit 6] [Bit 7],
           MuxDescriptor 1 [Bit 5] (Bit 1) (Bit 3) [Bit 8] [Bit 9]] 1) (\<lambda>i. i < 3) = 1"
  by (simp add: post_process_muxes_def mux_activation_loop.simps spec_activation_clause_def
      f_enc_zero_def Let_def)

text \<open>
  From the third descriptor on, the source overwrites \<open>prev\<close> with the last activation
  (\<^verbatim>\<open>prev = act\<close>) instead of accumulating the conditions: with three descriptors, the
  conjunct pushed last differs from the activation clause over the reversed list.
\<close>

lemma post_process_muxes_third_descriptor:
  "Eval (last (f_add_stack (post_process_muxes
      \<lparr>f_add_stack = [], f_type_stack = [],
       f_ctx_stack = [Identifier ''main''], f_time_stack = [0], f_micro_descriptors = [],
       f_mux_map = [(Identifier ''t'',
          [MuxDescriptor 1 [] (Bit 0) (Bit 3) [] [],
           MuxDescriptor 1 [] (Bit 1) (Bit 4) [] [],
           MuxDescriptor 1 [] (Bit 2) (Bit 5) [] []])],
       f_cache = Map.empty, f_preprocess = False\<rparr>))) (\<lambda>i. i = 0 \<or> i = 2) = 0 \<and>
   Eval (spec_activation_clause (rev
          [MuxDescriptor 1 [] (Bit 0) (Bit 3) [] [],
           MuxDescriptor 1 [] (Bit 1) (Bit 4) [] [],
           MuxDescriptor 1 [] (Bit 2) (Bit 5) [] []]) 2) (\<lambda>i. i = 0 \<or> i = 2) = 1"
  by (simp add: post_process_muxes_def mux_activation_loop.simps spec_activation_clause_def
      f_enc_zero_def Let_def numeral_2_eq_2)

section \<open>The boolean compiler\<close>

text \<open>
  The pointer arrays of the algebraic branch are never given a value, and the first index
  used is one past their end: on a non-empty stack and a positive width the hook fails at
  its first assignment, whatever the operands.
\<close>

lemma target_new_pointers: "target (new_pointers width) i = Inl InvalidPointer"
  by (simp add: target_def new_pointers_def)

lemma BECompiler_walk_or_postorder_algebraic:
  assumes "is_algebraic (types a)" "is_algebraic (types b)" "0 < width" "stack \<noteq> []"
  shows "BECompiler_walk_or_postorder types width (Binary OR a b) stack = Inl InvalidPointer"
proof -
  from assms(3) obtain w where w: "width = Suc w" by (cases width) simp_all
  have nb: "\<not> is_boolean (types a)" "\<not> is_enumerative (types a)"
    using assms(1) by (cases "types a"; simp add: is_boolean_def)+
  have "pop_digits (new_pointers width) width Map.empty stack = Inl InvalidPointer"
    unfolding w using assms(4) by (simp add: target_new_pointers)
  then show ?thesis
    using assms(1,2) nb
    by (simp add: BECompiler_walk_or_postorder_def is_binary_boolean_def is_binary_monolithic_def
        is_binary_algebraic_def is_binary_logical_def is_monolithic_def)
qed

text \<open>
  Were the pointers to refer to objects, the loop would push \<open>BWTimes\<close> of the digits, the
  digit-wise conjunction: with the digits 5 and 3 behind the pointers of index 1 it
  pushes an ADD that evaluates to 1, where the bitwise OR of 5 and 3 is 7.
\<close>

lemma push_digits_BWTimes:
  "push_digits BWTimes [None, Some 0] [None, Some 1] 1 [0 \<mapsto> Constant 5, 1 \<mapsto> Constant 3] []
     = Inr [BWTimes (Constant 5) (Constant 3)] \<and>
   Eval (BWTimes (Constant 5) (Constant 3)) (\<lambda>i. False) = 1 \<and>
   Eval (BWOr (Constant 5) (Constant 3)) (\<lambda>i. False) = 7"
  by (simp add: deref_def target_def)

text \<open>
  Claim C8 asks for the digit DDs of both operands to be popped and for one result DD per
  digit, the digit-wise disjunction, to be pushed. On two algebraic operands of width 2,
  with the digits 3, 5 and 5, 3 on the stack, the hook pushes nothing: it fails with
  \<open>InvalidPointer\<close> at \<^verbatim>\<open>*rhs[2] = f_add_stack.back()\<close>, where \<^verbatim>\<open>rhs\<close> is an array of two
  pointers without a value.
\<close>

theorem BECompiler_walk_or_postorder_undefined:
  "BECompiler_walk_or_postorder (\<lambda>e. UnsignedAlgebraicType 2) 2
     (Binary OR (Identifier ''a'') (Identifier ''b''))
     [Constant 3, Constant 5, Constant 5, Constant 3]
   = Inl InvalidPointer"
  by (simp add: BECompiler_walk_or_postorder_def is_binary_boolean_def is_binary_monolithic_def
      is_binary_algebraic_def is_binary_logical_def is_boolean_def is_monolithic_def
      numeral_2_eq_2 target_def new_pointers_def)

section \<open>The backward reachability strategy\<close>

lemma steps_below_of_nat:
  "k < 2 ^ 32 \<Longrightarrow> steps_below (of_nat k) = map of_nat [0..<k]"
  by (simp add: steps_below_def unat_of_nat)

lemma backward_loop_no_witness_no_proof:
  assumes "f_status s = REACHABILITY_UNKNOWN" and "Suc k < 2 ^ 32"
  shows "backward_loop (of_nat k) (STATUS_UNSAT # STATUS_SAT # answers) s =
     backward_loop (of_nat (Suc k)) answers
       (s\<lparr>f_groups := Suc (f_groups s),
          f_events := f_events s @
            spec_iteration (f_globally_time_constraints s) (Suc (f_groups s)) k\<rparr>)"
proof -
  have k1: "(of_nat k + 1 :: step_t) = of_nat (Suc k)" by simp
  have sb: "steps_below (of_nat (Suc k)) = map of_nat [0..<Suc k]"
    using assms(2) by (rule steps_below_of_nat)
  show ?thesis
    by (subst backward_loop.simps)
      (simp only: Let_def k1 sb, simp add: record_calls_def sync_status_def spec_iteration_def
        assms(1) comp_def del: upt_Suc of_nat_Suc)
qed

lemma backward_loop_iterations:
  assumes "f_status s = REACHABILITY_UNKNOWN" and "k + n < 2 ^ 32"
  shows "backward_loop (of_nat k) (concat (replicate n [STATUS_UNSAT, STATUS_SAT]) @ answers) s =
     backward_loop (of_nat (k + n)) answers
       (s\<lparr>f_groups := f_groups s + n,
          f_events := f_events s @
            concat (map (\<lambda>i. spec_iteration (f_globally_time_constraints s)
                                (Suc (f_groups s + i)) (k + i)) [0..<n])\<rparr>)"
  using assms
proof (induction n arbitrary: k s)
  case 0
  then show ?case by simp
next
  case (Suc n)
  let ?s1 = "s\<lparr>f_groups := Suc (f_groups s),
          f_events := f_events s @
            spec_iteration (f_globally_time_constraints s) (Suc (f_groups s)) k\<rparr>"
  have 1: "backward_loop (of_nat k)
        (concat (replicate (Suc n) [STATUS_UNSAT, STATUS_SAT]) @ answers) s =
      backward_loop (of_nat (Suc k)) (concat (replicate n [STATUS_UNSAT, STATUS_SAT]) @ answers) ?s1"
    using backward_loop_no_witness_no_proof[of s k] Suc.prems by simp
  have 2: "backward_loop (of_nat (Suc k)) (concat (replicate n [STATUS_UNSAT, STATUS_SAT]) @ answers) ?s1 =
      backward_loop (of_nat (Suc k + n)) answers
       (?s1\<lparr>f_groups := f_groups ?s1 + n,
          f_events := f_events ?s1 @
            concat (map (\<lambda>i. spec_iteration (f_globally_time_constraints ?s1)
                                (Suc (f_groups ?s1 + i)) (Suc k + i)) [0..<n])\<rparr>)"
    using Suc.prems by (intro Suc.IH) simp_all
  have 3: "concat (map (\<lambda>i. spec_iteration (f_globally_time_constraints s)
                                (Suc (f_groups s + i)) (k + i)) [0..<Suc n]) =
      spec_iteration (f_globally_time_constraints s) (Suc (f_groups s)) k @
      concat (map (\<lambda>i. spec_iteration (f_globally_time_constraints s)
                                (Suc (Suc (f_groups s) + i)) (Suc k + i)) [0..<n])"
  proof -
    have "[0..<Suc n] = 0 # map Suc [0..<n]"
      by (simp only: upt_conv_Cons[OF zero_less_Suc] map_Suc_upt)
    then show ?thesis by (simp add: comp_def del: upt_Suc)
  qed
  show ?case unfolding 1 2 3 by simp
qed

lemma backward_loop_witness:
  assumes "f_status s = REACHABILITY_UNKNOWN"
  shows "backward_loop k (STATUS_SAT # answers) s =
     Inr (s\<lparr>f_status := REACHABILITY_REACHABLE, f_groups := Suc (f_groups s),
            f_events := f_events s @
              [NewGroup (Suc (f_groups s)), AssertFsmInit (UINT_MAX - k) (Suc (f_groups s)),
               Solve STATUS_SAT, SetStatus REACHABILITY_REACHABLE, ExtractWitness k True]\<rparr>)"
  by (subst backward_loop.simps)
    (simp add: Let_def record_calls_def sync_set_status_def assms)

lemma backward_loop_proof:
  assumes "f_status s = REACHABILITY_UNKNOWN" and "Suc k < 2 ^ 32"
  shows "backward_loop (of_nat k) (STATUS_UNSAT # STATUS_UNSAT # answers) s =
     Inr (s\<lparr>f_status := REACHABILITY_UNREACHABLE, f_groups := Suc (f_groups s),
            f_events := f_events s @
              butlast (spec_iteration (f_globally_time_constraints s) (Suc (f_groups s)) k) @
              [Solve STATUS_UNSAT, SetStatus REACHABILITY_UNREACHABLE]\<rparr>)"
proof -
  have k1: "(of_nat k + 1 :: step_t) = of_nat (Suc k)" by simp
  have sb: "steps_below (of_nat (Suc k)) = map of_nat [0..<Suc k]"
    using assms(2) by (rule steps_below_of_nat)
  show ?thesis
    by (subst backward_loop.simps)
      (simp only: Let_def k1 sb, simp add: record_calls_def sync_status_def sync_set_status_def
        spec_iteration_def assms(1) comp_def butlast_append del: upt_Suc of_nat_Suc)
qed

text \<open>
  Claim C3. Let the strategy start with the status unknown and no positive-time
  constraint. It first asserts the target and INVAR (and the backward and global
  constraints) at \<open>UINT_MAX\<close> and solves. If that answer is UNSAT, it sets the status
  UNREACHABLE and interrupts, without any unrolling. If it is SAT and the next \<open>n\<close>
  iterations find neither witness nor proof, iteration \<open>k\<close> has made exactly the calls of
  \<open>spec_iteration\<close> for \<open>k\<close>: INIT at \<open>UINT_MAX - k\<close> in a fresh group, the solve, the
  inversion of the group, TRANS and INVAR at \<open>UINT_MAX - (k + 1)\<close>, uniqueness for every
  pair \<open>(UINT_MAX - j, UINT_MAX - (k + 1))\<close> with \<open>j < k + 1\<close>, and the solve for the
  proof. A SAT answer to the witness check of iteration \<open>n\<close> then sets REACHABLE and
  extracts the reversed witness of \<open>n\<close> steps; an UNSAT answer to both solves of
  iteration \<open>n\<close> sets UNREACHABLE.
\<close>

theorem backward_strategy_runs:
  assumes "f_status s = REACHABILITY_UNKNOWN"
    and "f_positive_time_constraints s = []"
    and "Suc n < 2 ^ 32"
  shows
    "backward_strategy (STATUS_UNSAT # answers) s =
       Inr (s\<lparr>f_status := REACHABILITY_UNREACHABLE,
              f_events := f_events s @ spec_initial s @
                [Solve STATUS_UNSAT, SetStatus REACHABILITY_UNREACHABLE, Interrupt]\<rparr>) \<and>
     backward_strategy
       (STATUS_SAT # concat (replicate n [STATUS_UNSAT, STATUS_SAT]) @ STATUS_SAT # answers) s =
       Inr (s\<lparr>f_status := REACHABILITY_REACHABLE,
              f_groups := Suc (f_groups s + n),
              f_events := f_events s @ spec_initial s @ [Solve STATUS_SAT] @
                concat (map (\<lambda>i. spec_iteration (f_globally_time_constraints s)
                                    (Suc (f_groups s + i)) i) [0..<n]) @
                [NewGroup (Suc (f_groups s + n)),
                 AssertFsmInit (UINT_MAX - of_nat n) (Suc (f_groups s + n)),
                 Solve STATUS_SAT, SetStatus REACHABILITY_REACHABLE,
                 ExtractWitness (of_nat n) True, Interrupt]\<rparr>) \<and>
     backward_strategy
       (STATUS_SAT # concat (replicate n [STATUS_UNSAT, STATUS_SAT])
          @ STATUS_UNSAT # STATUS_UNSAT # answers) s =
       Inr (s\<lparr>f_status := REACHABILITY_UNREACHABLE,
              f_groups := Suc (f_groups s + n),
              f_events := f_events s @ spec_initial s @ [Solve STATUS_SAT] @
                concat (map (\<lambda>i. spec_iteration (f_globally_time_constraints s)
                                    (Suc (f_groups s + i)) i) [0..<n]) @
                butlast (spec_iteration (f_globally_time_constraints s)
                           (Suc (f_groups s + n)) n) @
                [Solve STATUS_UNSAT, SetStatus REACHABILITY_UNREACHABLE, Interrupt]\<rparr>)"
proof (intro conjI)
  show "backward_strategy (STATUS_UNSAT # answers) s =
       Inr (s\<lparr>f_status := REACHABILITY_UNREACHABLE,
              f_events := f_events s @ spec_initial s @
                [Solve STATUS_UNSAT, SetStatus REACHABILITY_UNREACHABLE, Interrupt]\<rparr>)"
    using assms(1,2)
    by (simp add: backward_strategy_def Let_def record_calls_def sync_set_status_def cleanup_def
        spec_initial_def)
next
  let ?s2 = "s\<lparr>f_events := f_events s @ spec_initial s @ [Solve STATUS_SAT]\<rparr>"
  have u: "f_status ?s2 = REACHABILITY_UNKNOWN" using assms(1) by simp
  have n: "0 + n < (2::nat) ^ 32" using assms(3) by simp
  note it = backward_loop_iterations[OF u n, simplified]
  have s2: "record_calls [Solve STATUS_SAT]
      (record_calls ([AssertFormula UINT_MAX (f_target_cu s), AssertFsmInvar UINT_MAX]
         @ map (AssertFormula UINT_MAX) (f_negative_time_constraints s)
         @ map (AssertFormula UINT_MAX) (f_globally_time_constraints s)) s) = ?s2"
    by (simp add: record_calls_def spec_initial_def)
  let ?s3 = "s\<lparr>f_groups := f_groups s + n,
          f_events := f_events s @ spec_initial s @ [Solve STATUS_SAT] @
            concat (map (\<lambda>i. spec_iteration (f_globally_time_constraints s)
                                (Suc (f_groups s + i)) i) [0..<n])\<rparr>"
  have u3: "f_status ?s3 = REACHABILITY_UNKNOWN" using assms(1) by simp
  have l1: "backward_loop 0 (concat (replicate n [STATUS_UNSAT, STATUS_SAT]) @ STATUS_SAT # answers) ?s2
      = backward_loop (of_nat n) (STATUS_SAT # answers) ?s3"
    using it[of "STATUS_SAT # answers"] by simp
  have l2: "backward_loop 0 (concat (replicate n [STATUS_UNSAT, STATUS_SAT])
        @ STATUS_UNSAT # STATUS_UNSAT # answers) ?s2
      = backward_loop (of_nat n) (STATUS_UNSAT # STATUS_UNSAT # answers) ?s3"
    using it[of "STATUS_UNSAT # STATUS_UNSAT # answers"] by simp
  show "backward_strategy
       (STATUS_SAT # concat (replicate n [STATUS_UNSAT, STATUS_SAT]) @ STATUS_SAT # answers) s =
       Inr (s\<lparr>f_status := REACHABILITY_REACHABLE,
              f_groups := Suc (f_groups s + n),
              f_events := f_events s @ spec_initial s @ [Solve STATUS_SAT] @
                concat (map (\<lambda>i. spec_iteration (f_globally_time_constraints s)
                                    (Suc (f_groups s + i)) i) [0..<n]) @
                [NewGroup (Suc (f_groups s + n)),
                 AssertFsmInit (UINT_MAX - of_nat n) (Suc (f_groups s + n)),
                 Solve STATUS_SAT, SetStatus REACHABILITY_REACHABLE,
                 ExtractWitness (of_nat n) True, Interrupt]\<rparr>)"
    unfolding backward_strategy_def Let_def
    using assms(2)
    by (simp only: list.case s2 l1 backward_loop_witness[OF u3])
      (simp add: cleanup_def record_calls_def)
  show "backward_strategy
       (STATUS_SAT # concat (replicate n [STATUS_UNSAT, STATUS_SAT])
          @ STATUS_UNSAT # STATUS_UNSAT # answers) s =
       Inr (s\<lparr>f_status := REACHABILITY_UNREACHABLE,
              f_groups := Suc (f_groups s + n),
              f_events := f_events s @ spec_initial s @ [Solve STATUS_SAT] @
                concat (map (\<lambda>i. spec_iteration (f_globally_time_constraints s)
                                    (Suc (f_groups s + i)) i) [0..<n]) @
                butlast (spec_iteration (f_globally_time_constraints s)
                           (Suc (f_groups s + n)) n) @
                [Solve STATUS_UNSAT, SetStatus REACHABILITY_UNREACHABLE, Interrupt]\<rparr>)"
    unfolding backward_strategy_def Let_def
    using assms(2)
    by (simp only: list.case s2 l2 backward_loop_proof[OF u3 assms(3)])
      (simp add: cleanup_def record_calls_def)
qed

theorem backward_strategy_runs_witness:
  "backward_strategy [STATUS_SAT, STATUS_UNSAT, STATUS_SAT, STATUS_SAT]
     \<lparr>f_status = REACHABILITY_UNKNOWN, f_target_cu = CompilationUnit [Bit 0] [] [],
      f_positive_time_constraints = [], f_negative_time_constraints = [],
      f_globally_time_constraints = [], f_groups = 0, f_events = []\<rparr>
   = Inr \<lparr>f_status = REACHABILITY_REACHABLE, f_target_cu = CompilationUnit [Bit 0] [] [],
      f_positive_time_constraints = [], f_negative_time_constraints = [],
      f_globally_time_constraints = [], f_groups = 2,
      f_events =
        [AssertFormula UINT_MAX (CompilationUnit [Bit 0] [] []), AssertFsmInvar UINT_MAX,
         Solve STATUS_SAT,
         NewGroup 1, AssertFsmInit UINT_MAX 1, Solve STATUS_UNSAT,
         InvertLastGroup, AssertFsmTrans (UINT_MAX - 1), AssertFsmInvar (UINT_MAX - 1),
         AssertFsmUniqueness UINT_MAX (UINT_MAX - 1), Solve STATUS_SAT,
         NewGroup 2, AssertFsmInit (UINT_MAX - 1) 2, Solve STATUS_SAT,
         SetStatus REACHABILITY_REACHABLE, ExtractWitness 1 True, Interrupt]\<rparr>"
proof -
  have n: "Suc 1 < (2::nat) ^ 32" by simp
  have "concat (replicate 1 [STATUS_UNSAT, STATUS_SAT]) = [STATUS_UNSAT, STATUS_SAT]" by simp
  with backward_strategy_runs [of "\<lparr>f_status = REACHABILITY_UNKNOWN,
      f_target_cu = CompilationUnit [Bit 0] [] [],
      f_positive_time_constraints = [], f_negative_time_constraints = [],
      f_globally_time_constraints = [], f_groups = 0, f_events = []\<rparr>" 1 "[]", OF _ _ n]
  show ?thesis
    by (simp add: spec_initial_def spec_iteration_def)
qed

end
